theory Spec2Isabelle
  imports Main "HOL-Library.Word"
begin

unbundle bit_operations_syntax

section \<open>The volume parameters and the derived geometry\<close>

text \<open>
  The module-level constants of \<^verbatim>\<open>tools/mkfs_ext2.py\<close> (lines 5 to 10) are the only
  input of the tool.  They are kept as one record, so that the allocation passes can be
  studied for the shipped values and for other values of the constants alike.
\<close>

record params =
  DISK_SIZE :: nat
  BLOCK_SIZE :: nat
  INODE_SIZE :: nat
  BLOCKS_PER_GROUP :: nat
  INODES_PER_GROUP :: nat

definition default_params :: params where
  "default_params =
     \<lparr>DISK_SIZE = 64 * 1024 * 1024, BLOCK_SIZE = 1024, INODE_SIZE = 128,
      BLOCKS_PER_GROUP = 8192, INODES_PER_GROUP = 2048\<rparr>"

definition SECTORS_PER_BLOCK :: "params \<Rightarrow> nat" where
  "SECTORS_PER_BLOCK P = BLOCK_SIZE P div 512"

definition BLOCK_COUNT :: "params \<Rightarrow> nat" where
  "BLOCK_COUNT P = DISK_SIZE P div BLOCK_SIZE P"

definition GROUP_COUNT :: "params \<Rightarrow> nat" where
  "GROUP_COUNT P = (BLOCK_COUNT P + BLOCKS_PER_GROUP P - 1) div BLOCKS_PER_GROUP P"

definition INODE_COUNT :: "params \<Rightarrow> nat" where
  "INODE_COUNT P = INODES_PER_GROUP P * GROUP_COUNT P"

section \<open>Exceptions and bytes\<close>

text \<open>
  The script has no \<^verbatim>\<open>raise\<close> of its own; what can stop it are the exceptions of the
  operations it uses: a division by a zero constant, an index outside a list or a
  \<^verbatim>\<open>bytearray\<close>, and \<^verbatim>\<open>struct.error\<close> when a value does not fit its field or the
  field does not fit the buffer.
\<close>

datatype error = ZeroDivisionError | IndexError | StructError

type_synonym byte = "8 word"

definition then_do :: "error + 'a \<Rightarrow> ('a \<Rightarrow> error + 'b) \<Rightarrow> error + 'b" where
  "then_do m f = (case m of Inl e \<Rightarrow> Inl e | Inr x \<Rightarrow> f x)"

text \<open>A \<^verbatim>\<open>for\<close> loop whose body can raise: the first exception ends the loop.\<close>

fun for_each :: "('a \<Rightarrow> 's \<Rightarrow> error + 's) \<Rightarrow> 'a list \<Rightarrow> 's \<Rightarrow> error + 's" where
  "for_each f [] s = Inr s"
| "for_each f (x # xs) s = then_do (f x s) (for_each f xs)"

fun map_err :: "('a \<Rightarrow> error + 'b) \<Rightarrow> 'a list \<Rightarrow> error + 'b list" where
  "map_err f [] = Inr []"
| "map_err f (x # xs) =
     then_do (f x) (\<lambda>y. then_do (map_err f xs) (\<lambda>ys. Inr (y # ys)))"

section \<open>Bitmaps\<close>

text \<open>
  The statement \<^verbatim>\<open>bm[i // 8] |= (1 << (i % 8))\<close>, which the script repeats at every
  allocation.  The index is never negative there; an index past the end raises.
\<close>

definition set_bit_at :: "byte list \<Rightarrow> nat \<Rightarrow> error + byte list" where
  "set_bit_at bm i =
     (if i div 8 < length bm
      then Inr (bm[i div 8 := (bm ! (i div 8)) OR push_bit (i mod 8) 1])
      else Inl IndexError)"

text \<open>The test \<^verbatim>\<open>bm[i // 8] & (1 << (i % 8))\<close> of lines 192 and 209, for an index in range.\<close>

definition bit_is_set :: "byte list \<Rightarrow> nat \<Rightarrow> bool" where
  "bit_is_set bm i \<longleftrightarrow> (bm ! (i div 8)) AND push_bit (i mod 8) 1 \<noteq> 0"

text \<open>The set bits of a bitmap, and their number.\<close>

definition set_bits :: "byte list \<Rightarrow> nat set" where
  "set_bits bm = {i. i < 8 * length bm \<and> bit_is_set bm i}"

definition count_set :: "byte list \<Rightarrow> nat" where
  "count_set bm = length (filter (bit_is_set bm) [0..<8 * length bm])"

section \<open>Block groups\<close>

record BlockGroup =
  group_id :: nat
  block_bitmap_blk :: nat
  inode_bitmap_blk :: nat
  inode_table_blk :: nat
  free_blocks_count :: int
  free_inodes_count :: int
  used_dirs_count :: int
  block_bitmap :: "byte list"
  inode_bitmap :: "byte list"

text \<open>The constructor \<^verbatim>\<open>BlockGroup.__init__\<close>.\<close>

definition BlockGroup_init :: "params \<Rightarrow> nat \<Rightarrow> BlockGroup" where
  "BlockGroup_init P i =
     \<lparr>group_id = i, block_bitmap_blk = 0, inode_bitmap_blk = 0, inode_table_blk = 0,
      free_blocks_count = int (BLOCKS_PER_GROUP P),
      free_inodes_count = int (INODES_PER_GROUP P),
      used_dirs_count = 0,
      block_bitmap = replicate (BLOCK_SIZE P) 0,
      inode_bitmap = replicate (BLOCK_SIZE P) 0\<rparr>"

subsection \<open>Metadata blocks of one group (the body of the loop of lines 127 to 169)\<close>

text \<open>
  Marking the absolute block \<open>blk\<close> in the group's block bitmap: its position relative
  to the group's first block, the bit, the counter.  Every caller passes a block at or
  after the group's first block.
\<close>

definition mark_block :: "params \<Rightarrow> nat \<Rightarrow> BlockGroup \<Rightarrow> error + BlockGroup" where
  "mark_block P blk g =
     (let rel = blk - (group_id g * BLOCKS_PER_GROUP P + 1) in
      then_do (set_bit_at (block_bitmap g) rel)
        (\<lambda>bm. Inr (g\<lparr>block_bitmap := bm, free_blocks_count := free_blocks_count g - 1\<rparr>)))"

definition inode_table_blocks :: "params \<Rightarrow> nat" where
  "inode_table_blocks P = (INODES_PER_GROUP P * INODE_SIZE P) div BLOCK_SIZE P"

text \<open>Lines 130 to 143: the superblock and the descriptor table, in group 0 only.\<close>

definition reserve_sb_gdt :: "params \<Rightarrow> BlockGroup \<Rightarrow> error + (BlockGroup \<times> nat)" where
  "reserve_sb_gdt P g =
     (let start_block = group_id g * BLOCKS_PER_GROUP P + 1 in
      if group_id g = 0
      then then_do (set_bit_at (block_bitmap g) 0) (\<lambda>bm0.
           then_do (set_bit_at bm0 1) (\<lambda>bm1.
           Inr (g\<lparr>block_bitmap := bm1, free_blocks_count := free_blocks_count g - 2\<rparr>, 3)))
      else Inr (g, start_block))"

definition alloc_metadata :: "params \<Rightarrow> BlockGroup \<Rightarrow> error + BlockGroup" where
  "alloc_metadata P g =
     then_do (reserve_sb_gdt P g) (\<lambda>(g0, current_alloc).
     then_do (mark_block P current_alloc (g0\<lparr>block_bitmap_blk := current_alloc\<rparr>)) (\<lambda>g1.
     then_do (mark_block P (current_alloc + 1) (g1\<lparr>inode_bitmap_blk := current_alloc + 1\<rparr>)) (\<lambda>g2.
     for_each (\<lambda>k. mark_block P (current_alloc + 2 + k)) [0..<inode_table_blocks P]
       (g2\<lparr>inode_table_blk := current_alloc + 2\<rparr>))))"

subsection \<open>Inodes\<close>

text \<open>Lines 182 to 185: the bit of inode \<open>i\<close> in its group, and that group's counter.\<close>

definition mark_inode :: "params \<Rightarrow> nat \<Rightarrow> BlockGroup list \<Rightarrow> error + BlockGroup list" where
  "mark_inode P i gs =
     (if INODES_PER_GROUP P = 0 then Inl ZeroDivisionError
      else
        let grp = (i - 1) div INODES_PER_GROUP P;
            off = (i - 1) mod INODES_PER_GROUP P
        in if grp < length gs
           then then_do (set_bit_at (inode_bitmap (gs ! grp)) off) (\<lambda>bm.
                Inr (gs[grp := (gs ! grp)\<lparr>inode_bitmap := bm,
                       free_inodes_count := free_inodes_count (gs ! grp) - 1\<rparr>]))
           else Inl IndexError)"

text \<open>Lines 172 to 177 and 199 to 204: a directory inode also counts as a used directory.\<close>

definition alloc_dir_inode :: "params \<Rightarrow> nat \<Rightarrow> BlockGroup list \<Rightarrow> error + BlockGroup list" where
  "alloc_dir_inode P i gs =
     then_do (mark_inode P i gs) (\<lambda>gs'.
       let grp = (i - 1) div INODES_PER_GROUP P
       in Inr (gs'[grp := (gs' ! grp)\<lparr>used_dirs_count := used_dirs_count (gs' ! grp) + 1\<rparr>]))"

subsection \<open>The first-fit scan for a data block (lines 188 to 196 and 206 to 213)\<close>

text \<open>
  \<open>scan_free n bm i\<close> is the loop from index \<open>i\<close> on: the first index below \<open>n\<close> whose
  bit is not set, or \<open>None\<close> when the loop ends without reaching \<^verbatim>\<open>break\<close>.
\<close>

function scan_free :: "nat \<Rightarrow> byte list \<Rightarrow> nat \<Rightarrow> error + nat option" where
  "scan_free n bm i =
     (if n \<le> i then Inr None
      else if length bm \<le> i div 8 then Inl IndexError
      else if (bm ! (i div 8)) AND push_bit (i mod 8) 1 = 0 then Inr (Some i)
      else scan_free n bm (Suc i))"
  by pat_completeness auto
termination
  by (relation "measure (\<lambda>(n, bm, i). n - i)") auto

declare scan_free.simps [simp del]

text \<open>
  The data block variable starts as 0 and keeps that value when the loop finds nothing:
  the script has no \<^verbatim>\<open>else\<close> branch on the loop and no check after it.
\<close>

definition alloc_data_block :: "params \<Rightarrow> BlockGroup \<Rightarrow> error + (BlockGroup \<times> nat)" where
  "alloc_data_block P g =
     then_do (scan_free (BLOCKS_PER_GROUP P) (block_bitmap g) 0) (\<lambda>r.
       case r of
         None \<Rightarrow> Inr (g, 0)
       | Some i \<Rightarrow>
           then_do (set_bit_at (block_bitmap g) i) (\<lambda>bm.
             Inr (g\<lparr>block_bitmap := bm, free_blocks_count := free_blocks_count g - 1\<rparr>,
                  group_id g * BLOCKS_PER_GROUP P + 1 + i)))"

definition data_block_in ::
    "params \<Rightarrow> nat \<Rightarrow> BlockGroup list \<Rightarrow> error + (BlockGroup list \<times> nat)" where
  "data_block_in P k gs =
     (if k < length gs
      then then_do (alloc_data_block P (gs ! k)) (\<lambda>(g', blk). Inr (gs[k := g'], blk))
      else Inl IndexError)"

subsection \<open>All allocation passes (lines 118 to 213)\<close>

record layout =
  groups :: "BlockGroup list"
  root_data_block :: nat
  lf_data_block :: nat

definition root_inode_index :: nat where "root_inode_index = 2"
definition lf_inode_index :: nat where "lf_inode_index = 11"

definition root_group_idx :: "params \<Rightarrow> nat" where
  "root_group_idx P = (root_inode_index - 1) div INODES_PER_GROUP P"

definition lf_group_idx :: "params \<Rightarrow> nat" where
  "lf_group_idx P = (lf_inode_index - 1) div INODES_PER_GROUP P"

definition allocate :: "params \<Rightarrow> error + layout" where
  "allocate P =
     (if BLOCK_SIZE P = 0 \<or> BLOCKS_PER_GROUP P = 0 then Inl ZeroDivisionError
      else
        then_do (map_err (alloc_metadata P)
                   (map (BlockGroup_init P) [0..<GROUP_COUNT P])) (\<lambda>gs1.
        then_do (alloc_dir_inode P root_inode_index gs1) (\<lambda>gs2.
        then_do (for_each (mark_inode P) (filter (\<lambda>i. i \<noteq> 2) [1..<11]) gs2) (\<lambda>gs3.
        then_do (data_block_in P 0 gs3) (\<lambda>(gs4, root_blk).
        then_do (alloc_dir_inode P lf_inode_index gs4) (\<lambda>gs5.
        then_do (data_block_in P (lf_group_idx P) gs5) (\<lambda>(gs6, lf_blk).
        Inr \<lparr>groups = gs6, root_data_block = root_blk, lf_data_block = lf_blk\<rparr>)))))))"

section \<open>Binary packing\<close>

text \<open>
  \<^verbatim>\<open>struct.pack_into\<close> with a little-endian format without padding (\<^verbatim>\<open>"<..."\<close>).  A
  field carries its format character: \<open>I\<close> is an unsigned 32-bit value, \<open>H\<close> an unsigned
  16-bit value, \<open>B\<close> one byte, and \<open>S n\<close> is \<^verbatim>\<open>ns\<close>, a byte string cut or zero-padded to
  \<open>n\<close> bytes.  A value outside its field's range raises \<^verbatim>\<open>struct.error\<close>, and so does a
  buffer too short for the fields.
\<close>

datatype field = I int | H int | B int | S nat "byte list"

definition le_bytes :: "nat \<Rightarrow> int \<Rightarrow> error + byte list" where
  "le_bytes k v =
     (if 0 \<le> v \<and> v < 2 ^ (8 * k)
      then Inr (map (\<lambda>j. word_of_int (v div 256 ^ j)) [0..<k])
      else Inl StructError)"

fun pack_field :: "field \<Rightarrow> error + byte list" where
  "pack_field (I v) = le_bytes 4 v"
| "pack_field (H v) = le_bytes 2 v"
| "pack_field (B v) = le_bytes 1 v"
| "pack_field (S n bs) = Inr (take n (bs @ replicate n 0))"

fun pack :: "field list \<Rightarrow> error + byte list" where
  "pack [] = Inr []"
| "pack (f # fs) = then_do (pack_field f) (\<lambda>b. then_do (pack fs) (\<lambda>bs. Inr (b @ bs)))"

definition pack_into :: "field list \<Rightarrow> nat \<Rightarrow> byte list \<Rightarrow> error + byte list" where
  "pack_into fs off buf =
     then_do (pack fs) (\<lambda>bs.
       if off + length bs \<le> length buf
       then Inr (take off buf @ bs @ drop (off + length bs) buf)
       else Inl StructError)"

text \<open>Reading a little-endian field back (for stating what a buffer holds).\<close>

definition u16_at :: "byte list \<Rightarrow> nat \<Rightarrow> nat" where
  "u16_at buf off = unat (buf ! off) + 256 * unat (buf ! (off + 1))"

definition u32_at :: "byte list \<Rightarrow> nat \<Rightarrow> nat" where
  "u32_at buf off =
     unat (buf ! off) + 256 * unat (buf ! (off + 1)) + 65536 * unat (buf ! (off + 2))
       + 16777216 * unat (buf ! (off + 3))"

definition bytes_of :: "string \<Rightarrow> byte list" where
  "bytes_of s = map of_char s"

section \<open>The superblock (lines 47 to 73 and 215 to 221)\<close>

text \<open>\<open>t1\<close> and \<open>t2\<close> are the two readings \<^verbatim>\<open>int(time.time())\<close> of lines 61 and 62.\<close>

definition create_superblock :: "params \<Rightarrow> int \<Rightarrow> int \<Rightarrow> error + byte list" where
  "create_superblock P t1 t2 =
     then_do (pack_into
        [I (int (INODE_COUNT P)), I (int (BLOCK_COUNT P)), I 0,
         I (int (BLOCK_COUNT P) - 1 - int (GROUP_COUNT P) * 1 - 1),
         I (int (INODE_COUNT P) - 11),
         I 1, I 0, I 0,
         I (int (BLOCKS_PER_GROUP P)), I (int (BLOCKS_PER_GROUP P)),
         I (int (INODES_PER_GROUP P)),
         I t1, I t2, H 0, H 20] 0 (replicate 1024 0)) (\<lambda>sb1.
     then_do (pack_into [H 0xEF53] 56 sb1) (\<lambda>sb2.
     then_do (pack_into [H 1] 58 sb2) (\<lambda>sb3.
     then_do (pack_into [H 1] 60 sb3) (\<lambda>sb4.
     pack_into [I 0] 76 sb4))))"

definition total_free_blocks :: "BlockGroup list \<Rightarrow> int" where
  "total_free_blocks gs = sum_list (map free_blocks_count gs)"

definition total_free_inodes :: "BlockGroup list \<Rightarrow> int" where
  "total_free_inodes gs = sum_list (map free_inodes_count gs)"

definition sb_data :: "params \<Rightarrow> int \<Rightarrow> int \<Rightarrow> BlockGroup list \<Rightarrow> error + byte list" where
  "sb_data P t1 t2 gs =
     then_do (create_superblock P t1 t2) (\<lambda>sb.
     then_do (pack_into [I (total_free_blocks gs)] 12 sb) (\<lambda>sb'.
     pack_into [I (total_free_inodes gs)] 16 sb'))"

section \<open>The write phase (lines 224 to 334)\<close>

text \<open>
  The file is opened for writing, set to \<^verbatim>\<open>DISK_SIZE\<close> zero bytes, and then written by
  pairs of \<^verbatim>\<open>seek\<close> and \<^verbatim>\<open>write\<close>.  The model keeps the pairs in the order of the source;
  the byte the file holds at an offset is the one of the last write that covers it, and
  zero when none does.
\<close>

type_synonym file_write = "nat \<times> byte list"

definition write_at :: "(nat \<Rightarrow> byte) \<Rightarrow> file_write \<Rightarrow> (nat \<Rightarrow> byte)" where
  "write_at f w =
     (\<lambda>pos. if fst w \<le> pos \<and> pos < fst w + length (snd w) then snd w ! (pos - fst w)
           else f pos)"

definition image_byte :: "file_write list \<Rightarrow> nat \<Rightarrow> byte" where
  "image_byte ws = foldl write_at (\<lambda>pos. 0) ws"

definition image_size :: "params \<Rightarrow> file_write list \<Rightarrow> nat" where
  "image_size P ws = fold max (map (\<lambda>w. fst w + length (snd w)) ws) (DISK_SIZE P)"

text \<open>The group descriptor table (lines 233 to 243).\<close>

definition gdt_entry :: "(nat \<times> BlockGroup) \<Rightarrow> byte list \<Rightarrow> error + byte list" where
  "gdt_entry ig gdt =
     (case ig of (i, g) \<Rightarrow>
        pack_into
          [I (int (block_bitmap_blk g)), I (int (inode_bitmap_blk g)),
           I (int (inode_table_blk g)),
           H (free_blocks_count g), H (free_inodes_count g), H (used_dirs_count g), H 0]
          (i * 32) gdt)"

definition gdt_block :: "params \<Rightarrow> BlockGroup list \<Rightarrow> error + byte list" where
  "gdt_block P gs =
     for_each gdt_entry (zip [0..<length gs] gs) (replicate (BLOCK_SIZE P) 0)"

text \<open>
  The two inode records (lines 264 to 272 and 281 to 286) are built by the same five
  statements; they differ in the link count and in the data block.
\<close>

definition dir_inode :: "params \<Rightarrow> int \<Rightarrow> nat \<Rightarrow> error + byte list" where
  "dir_inode P links blk =
     then_do (pack_into [H 0x41ED] 0 (replicate (INODE_SIZE P) 0)) (\<lambda>b1.
     then_do (pack_into [I (int (BLOCK_SIZE P))] 4 b1) (\<lambda>b2.
     then_do (pack_into [I 2] 28 b2) (\<lambda>b3.
     then_do (pack_into [H links] 26 b3) (\<lambda>b4.
     pack_into [I (int blk)] 40 b4))))"

definition root_inode :: "params \<Rightarrow> layout \<Rightarrow> error + byte list" where
  "root_inode P L = dir_inode P 3 (root_data_block L)"

definition lf_inode :: "params \<Rightarrow> layout \<Rightarrow> error + byte list" where
  "lf_inode P L = dir_inode P 2 (lf_data_block L)"

text \<open>The writes of one group (the body of the loop of lines 248 to 289).\<close>

definition group_writes :: "params \<Rightarrow> layout \<Rightarrow> BlockGroup \<Rightarrow> error + file_write list" where
  "group_writes P L g =
     (let bitmaps =
            [(block_bitmap_blk g * BLOCK_SIZE P, block_bitmap g),
             (inode_bitmap_blk g * BLOCK_SIZE P, inode_bitmap g)]
      in
      then_do
        (if group_id g = root_group_idx P
         then then_do (root_inode P L) (\<lambda>b.
                Inr [(inode_table_blk g * BLOCK_SIZE P
                        + ((root_inode_index - 1) mod INODES_PER_GROUP P) * INODE_SIZE P, b)])
         else Inr []) (\<lambda>w_root.
      then_do
        (if group_id g = lf_group_idx P
         then then_do (lf_inode P L) (\<lambda>b.
                Inr [(inode_table_blk g * BLOCK_SIZE P
                        + ((lf_inode_index - 1) mod INODES_PER_GROUP P) * INODE_SIZE P, b)])
         else Inr []) (\<lambda>w_lf.
      Inr (bitmaps @ w_root @ w_lf))))"

text \<open>The two directory blocks (lines 298 to 315 and 324 to 331).\<close>

definition root_block :: "params \<Rightarrow> error + byte list" where
  "root_block P =
     then_do (pack_into [I 2, H 12, B 1, B 2, S 1 (bytes_of ''.'')] 0
                (replicate (BLOCK_SIZE P) 0)) (\<lambda>b1.
     then_do (pack_into [I 2, H 12, B 2, B 2, S 2 (bytes_of ''..'')] 12 b1) (\<lambda>b2.
     pack_into [I 11, H (int (BLOCK_SIZE P) - 24), B 10, B 2, S 10 (bytes_of ''lost+found'')]
       24 b2))"

definition lf_block :: "params \<Rightarrow> error + byte list" where
  "lf_block P =
     then_do (pack_into [I 11, H 12, B 1, B 2, S 1 (bytes_of ''.'')] 0
                (replicate (BLOCK_SIZE P) 0)) (\<lambda>b1.
     pack_into [I 2, H (int (BLOCK_SIZE P) - 12), B 2, B 2, S 2 (bytes_of ''..'')] 12 b1)"

definition write_image :: "params \<Rightarrow> layout \<Rightarrow> byte list \<Rightarrow> error + file_write list" where
  "write_image P L sb =
     then_do (gdt_block P (groups L)) (\<lambda>gdt.
     then_do (map_err (group_writes P L) (groups L)) (\<lambda>gws.
     then_do (root_block P) (\<lambda>rb.
     then_do (lf_block P) (\<lambda>lb.
     Inr ([(1024, sb), (2 * BLOCK_SIZE P, gdt)] @ concat gws
          @ [(root_data_block L * BLOCK_SIZE P, rb), (lf_data_block L * BLOCK_SIZE P, lb)])))))"

text \<open>
  The whole script.  \<open>Inl\<close> is an exception; one raised in the write phase leaves the
  file partly written.
\<close>

definition mkfs :: "params \<Rightarrow> int \<Rightarrow> int \<Rightarrow> error + file_write list" where
  "mkfs P t1 t2 =
     then_do (allocate P) (\<lambda>L.
     then_do (sb_data P t1 t2 (groups L)) (\<lambda>sb.
     write_image P L sb))"

section \<open>Stating what the allocation passes establish\<close>

text \<open>
  The definitions of this section are not part of the script.  They name the quantities
  in which its behaviour is stated: how many blocks a group loses to the superblock and
  the descriptor table, how many to its metadata, which inodes of a set fall into a
  group, and the parameters for which no statement of the script raises.
\<close>

definition sb_gdt_blocks :: "BlockGroup \<Rightarrow> nat" where
  "sb_gdt_blocks g = (if group_id g = 0 then 2 else 0)"

definition metadata_blocks :: "params \<Rightarrow> nat \<Rightarrow> nat" where
  "metadata_blocks P k = (if k = 0 then 2 else 0) + 2 + inode_table_blocks P"

text \<open>The inodes of \<open>T\<close>, numbered from 0, that belong to group \<open>k\<close>.\<close>

definition inodes_in :: "params \<Rightarrow> nat set \<Rightarrow> nat \<Rightarrow> nat set" where
  "inodes_in P T k = {j \<in> T. j div INODES_PER_GROUP P = k}"

text \<open>
  The state of group \<open>k\<close> when the first \<open>M k\<close> blocks of the group are allocated,
  the inodes of \<open>T\<close> are marked and \<open>D k\<close> directories are counted: the metadata blocks
  have their addresses, the bitmaps have the length of a block, the set bits of the
  block bitmap are the first \<open>M k\<close>, the set bits of the inode bitmap are the offsets
  of the group's inodes, and each counter has lost one per set bit.
\<close>

definition group_ok ::
    "params \<Rightarrow> (nat \<Rightarrow> nat) \<Rightarrow> (nat \<Rightarrow> int) \<Rightarrow> nat set \<Rightarrow> nat \<Rightarrow> BlockGroup \<Rightarrow> bool" where
  "group_ok P M D T k g \<longleftrightarrow>
     group_id g = k \<and>
     block_bitmap_blk g = k * BLOCKS_PER_GROUP P + 1 + (if k = 0 then 2 else 0) \<and>
     inode_bitmap_blk g = k * BLOCKS_PER_GROUP P + 1 + (if k = 0 then 2 else 0) + 1 \<and>
     inode_table_blk g = k * BLOCKS_PER_GROUP P + 1 + (if k = 0 then 2 else 0) + 2 \<and>
     used_dirs_count g = D k \<and>
     length (block_bitmap g) = BLOCK_SIZE P \<and>
     length (inode_bitmap g) = BLOCK_SIZE P \<and>
     set_bits (block_bitmap g) = {0..<M k} \<and>
     free_blocks_count g = int (BLOCKS_PER_GROUP P) - int (M k) \<and>
     set_bits (inode_bitmap g) = (\<lambda>j. j mod INODES_PER_GROUP P) ` inodes_in P T k \<and>
     free_inodes_count g = int (INODES_PER_GROUP P) - int (card (inodes_in P T k))"

definition groups_ok ::
    "params \<Rightarrow> (nat \<Rightarrow> nat) \<Rightarrow> (nat \<Rightarrow> int) \<Rightarrow> nat set \<Rightarrow> BlockGroup list \<Rightarrow> bool" where
  "groups_ok P M D T gs \<longleftrightarrow>
     length gs = GROUP_COUNT P \<and> (\<forall>k<length gs. group_ok P M D T k (gs ! k))"

text \<open>
  The effect of one first-fit scan in group \<open>k\<close> on the number of allocated blocks, and
  the address it records: the next block of the group when one is left, and otherwise
  the initial value 0 of the variable.
\<close>

definition after_data_block :: "params \<Rightarrow> (nat \<Rightarrow> nat) \<Rightarrow> nat \<Rightarrow> (nat \<Rightarrow> nat)" where
  "after_data_block P M k = (if M k < BLOCKS_PER_GROUP P then M(k := Suc (M k)) else M)"

definition data_block_addr :: "params \<Rightarrow> (nat \<Rightarrow> nat) \<Rightarrow> nat \<Rightarrow> nat" where
  "data_block_addr P M k =
     (if M k < BLOCKS_PER_GROUP P then k * BLOCKS_PER_GROUP P + 1 + M k else 0)"

definition dirs_after_root :: "params \<Rightarrow> nat \<Rightarrow> int" where
  "dirs_after_root P = (\<lambda>_. 0)(root_group_idx P := 1)"

definition dirs_final :: "params \<Rightarrow> nat \<Rightarrow> int" where
  "dirs_final P = (dirs_after_root P)(lf_group_idx P := dirs_after_root P (lf_group_idx P) + 1)"

definition blocks_after_root :: "params \<Rightarrow> nat \<Rightarrow> nat" where
  "blocks_after_root P = after_data_block P (metadata_blocks P) 0"

definition blocks_final :: "params \<Rightarrow> nat \<Rightarrow> nat" where
  "blocks_final P = after_data_block P (blocks_after_root P) (lf_group_idx P)"

text \<open>
  Parameters with which the allocation passes run to their end: no constant that is
  divided by is zero, a bitmap block has a bit for every block and every inode of a
  group and for the metadata blocks, and the volume has the eleven inodes the script
  marks.
\<close>

definition well_formed :: "params \<Rightarrow> bool" where
  "well_formed P \<longleftrightarrow>
     0 < BLOCK_SIZE P \<and> 0 < BLOCKS_PER_GROUP P \<and> 0 < INODES_PER_GROUP P \<and>
     BLOCKS_PER_GROUP P \<le> 8 * BLOCK_SIZE P \<and>
     INODES_PER_GROUP P \<le> 8 * BLOCK_SIZE P \<and>
     metadata_blocks P 0 \<le> 8 * BLOCK_SIZE P \<and>
     11 \<le> INODE_COUNT P"



definition patch :: "byte list \<Rightarrow> nat \<Rightarrow> byte list \<Rightarrow> byte list" where
  "patch buf off bs = take off buf @ bs @ drop (off + length bs) buf"

definition dirent_at :: "byte list \<Rightarrow> nat \<Rightarrow> nat \<times> nat \<times> nat \<times> nat \<times> byte list" where
  "dirent_at buf off =
     (u32_at buf off, u16_at buf (off + 4), unat (buf ! (off + 6)), unat (buf ! (off + 7)),
      take (unat (buf ! (off + 6))) (drop (off + 8) buf))"

definition serializable :: "params \<Rightarrow> bool" where
  "serializable P \<longleftrightarrow>
     42 \<le> BLOCK_SIZE P \<and> BLOCK_SIZE P \<le> 65547 \<and> 44 \<le> INODE_SIZE P \<and>
     BLOCKS_PER_GROUP P \<le> 65535 \<and> INODES_PER_GROUP P \<le> 65535 \<and>
     metadata_blocks P 0 \<le> BLOCKS_PER_GROUP P \<and>
     GROUP_COUNT P * 32 \<le> BLOCK_SIZE P \<and>
     GROUP_COUNT P * BLOCKS_PER_GROUP P + 5 < 4294967296 \<and>
     INODE_COUNT P < 4294967296 \<and>
     BLOCK_COUNT P < 4294967296 \<and>
     GROUP_COUNT P + 2 \<le> BLOCK_COUNT P"

fun field_size :: "field \<Rightarrow> nat" where
  "field_size (I v) = 4"
| "field_size (H v) = 2"
| "field_size (B v) = 1"
| "field_size (S n bs) = n"

definition agree_outside :: "nat set \<Rightarrow> byte list \<Rightarrow> byte list \<Rightarrow> bool" where
  "agree_outside X a b \<longleftrightarrow> length a = length b \<and> (\<forall>j<length a. j \<notin> X \<longrightarrow> a ! j = b ! j)"

section \<open>Sequencing and bitmaps\<close>

lemma then_do_Inr [simp]: "then_do (Inr x) f = f x"
  by (simp add: then_do_def)

lemma then_do_Inl [simp]: "then_do (Inl e) f = Inl e"
  by (simp add: then_do_def)

lemma then_do_eq_Inr: "then_do m f = Inr y \<longleftrightarrow> (\<exists>x. m = Inr x \<and> f x = Inr y)"
  by (cases m) simp_all

lemma bit_is_set_iff: "bit_is_set bm i \<longleftrightarrow> bit (bm ! (i div 8)) (i mod 8)"
  by (simp add: bit_is_set_def bit_iff_and_push_bit_not_eq_0)

lemma bit_or_push_bit_byte:
  "k < 8 \<Longrightarrow> bit ((w::byte) OR push_bit k 1) m \<longleftrightarrow> bit w m \<or> m = k"
  by (auto simp: bit_or_iff bit_exp_iff)

lemma set_bit_at_Inr:
  "i < 8 * length bm \<Longrightarrow>
   set_bit_at bm i = Inr (bm[i div 8 := (bm ! (i div 8)) OR push_bit (i mod 8) 1])"
  by (simp add: set_bit_at_def)

lemma set_bit_at_length: "set_bit_at bm i = Inr bm' \<Longrightarrow> length bm' = length bm"
  by (auto simp: set_bit_at_def split: if_splits)

lemma bit_is_set_after:
  assumes "set_bit_at bm i = Inr bm'" and "j < 8 * length bm"
  shows "bit_is_set bm' j \<longleftrightarrow> j = i \<or> bit_is_set bm j"
proof -
  from assms(1) have i: "i div 8 < length bm"
    and bm': "bm' = bm[i div 8 := (bm ! (i div 8)) OR push_bit (i mod 8) 1]"
    by (auto simp: set_bit_at_def split: if_splits)
  from assms(2) have j: "j div 8 < length bm" by simp
  show ?thesis
  proof (cases "j div 8 = i div 8")
    case True
    have "j = i \<longleftrightarrow> j mod 8 = i mod 8"
      using True by (metis div_mult_mod_eq)
    then show ?thesis
      using True i by (simp add: bit_is_set_iff bm' bit_or_push_bit_byte del: push_bit_of_1) blast
  next
    case False
    then show ?thesis using i j by (auto simp: bit_is_set_iff bm')
  qed
qed

lemma set_bits_after:
  assumes "set_bit_at bm i = Inr bm'"
  shows "set_bits bm' = insert i (set_bits bm)"
proof -
  have len: "length bm' = length bm" using assms by (rule set_bit_at_length)
  have i: "i < 8 * length bm" using assms by (auto simp: set_bit_at_def split: if_splits)
  show ?thesis
    using i bit_is_set_after [OF assms] by (auto simp: set_bits_def len)
qed

lemma count_set_card: "count_set bm = card (set_bits bm)"
proof -
  have "set (filter (bit_is_set bm) [0..<8 * length bm]) = set_bits bm"
    by (auto simp: set_bits_def)
  moreover have "distinct (filter (bit_is_set bm) [0..<8 * length bm])" by simp
  ultimately show ?thesis
    unfolding count_set_def by (metis distinct_card)
qed

lemma finite_set_bits [simp]: "finite (set_bits bm)"
  by (simp add: set_bits_def)

lemma set_bits_replicate [simp]: "set_bits (replicate n 0) = {}"
  by (auto simp: set_bits_def bit_is_set_def)

lemma set_bits_bound: "i \<in> set_bits bm \<Longrightarrow> i < 8 * length bm"
  by (simp add: set_bits_def)

section \<open>Metadata allocation\<close>

lemma for_each_append:
  "for_each f (xs @ ys) s = then_do (for_each f xs s) (for_each f ys)"
  by (induction xs arbitrary: s) (simp_all add: then_do_def split: sum.splits)

lemma mark_block_total:
  assumes "blk - (group_id g * BLOCKS_PER_GROUP P + 1) < 8 * length (block_bitmap g)"
  shows "\<exists>bm. mark_block P blk g
            = Inr (g\<lparr>block_bitmap := bm, free_blocks_count := free_blocks_count g - 1\<rparr>)
          \<and> set_bits bm
            = insert (blk - (group_id g * BLOCKS_PER_GROUP P + 1)) (set_bits (block_bitmap g))
          \<and> length bm = length (block_bitmap g)"
proof -
  let ?rel = "blk - (group_id g * BLOCKS_PER_GROUP P + 1)"
  obtain bm where bm: "set_bit_at (block_bitmap g) ?rel = Inr bm"
    using set_bit_at_Inr [OF assms] by blast
  have "mark_block P blk g
          = Inr (g\<lparr>block_bitmap := bm, free_blocks_count := free_blocks_count g - 1\<rparr>)"
    using bm by (simp add: mark_block_def Let_def)
  with set_bits_after [OF bm] set_bit_at_length [OF bm] show ?thesis by blast
qed

lemma mark_blocks_range:
  assumes "first = group_id g * BLOCKS_PER_GROUP P + 1"
    and "first \<le> c"
    and "c - first + n \<le> 8 * length (block_bitmap g)"
  shows "\<exists>bm. for_each (\<lambda>k. mark_block P (c + k)) [0..<n] g
            = Inr (g\<lparr>block_bitmap := bm, free_blocks_count := free_blocks_count g - int n\<rparr>)
          \<and> set_bits bm = set_bits (block_bitmap g) \<union> {c - first ..< c - first + n}
          \<and> length bm = length (block_bitmap g)"
  using assms(3)
proof (induction n)
  case 0
  have "g\<lparr>block_bitmap := block_bitmap g, free_blocks_count := free_blocks_count g - int 0\<rparr> = g"
    by simp
  then show ?case by (intro exI [of _ "block_bitmap g"]) simp
next
  case (Suc n)
  then obtain bm where
    run: "for_each (\<lambda>k. mark_block P (c + k)) [0..<n] g
            = Inr (g\<lparr>block_bitmap := bm, free_blocks_count := free_blocks_count g - int n\<rparr>)"
    and bits: "set_bits bm = set_bits (block_bitmap g) \<union> {c - first ..< c - first + n}"
    and len: "length bm = length (block_bitmap g)"
    by auto
  let ?g = "g\<lparr>block_bitmap := bm, free_blocks_count := free_blocks_count g - int n\<rparr>"
  have rel: "c + n - (group_id ?g * BLOCKS_PER_GROUP P + 1) = c - first + n"
    using assms(1,2) by simp
  have "c + n - (group_id ?g * BLOCKS_PER_GROUP P + 1) < 8 * length (block_bitmap ?g)"
    using Suc.prems len rel by simp
  from mark_block_total [OF this] obtain bm' where
    step: "mark_block P (c + n) ?g
             = Inr (?g\<lparr>block_bitmap := bm', free_blocks_count := free_blocks_count ?g - 1\<rparr>)"
    and bits': "set_bits bm' = insert (c - first + n) (set_bits bm)"
    and len': "length bm' = length bm"
    unfolding rel by auto
  have "for_each (\<lambda>k. mark_block P (c + k)) [0..<Suc n] g
          = Inr (g\<lparr>block_bitmap := bm', free_blocks_count := free_blocks_count g - int (Suc n)\<rparr>)"
    using run step by (simp add: for_each_append)
  moreover have "set_bits bm' = set_bits (block_bitmap g) \<union> {c - first ..< c - first + Suc n}"
    using bits bits' by auto
  ultimately show ?case using len len' by auto
qed

lemma reserve_sb_gdt_total:
  assumes "0 < length (block_bitmap g)"
  shows "\<exists>bm. reserve_sb_gdt P g
            = Inr (g\<lparr>block_bitmap := bm,
                     free_blocks_count := free_blocks_count g - int (sb_gdt_blocks g)\<rparr>,
                   group_id g * BLOCKS_PER_GROUP P + 1 + sb_gdt_blocks g)
          \<and> set_bits bm = set_bits (block_bitmap g) \<union> {0..<sb_gdt_blocks g}
          \<and> length bm = length (block_bitmap g)"
proof (cases "group_id g = 0")
  case True
  have "0 < 8 * length (block_bitmap g)" using assms by arith
  from set_bit_at_Inr [OF this] obtain bm0 where bm0: "set_bit_at (block_bitmap g) 0 = Inr bm0"
    by blast
  have len0: "length bm0 = length (block_bitmap g)" using bm0 by (rule set_bit_at_length)
  have "1 < 8 * length bm0" using assms len0 by arith
  from set_bit_at_Inr [OF this] obtain bm1 where bm1: "set_bit_at bm0 1 = Inr bm1"
    by blast
  have len1: "length bm1 = length bm0" using bm1 by (rule set_bit_at_length)
  have b: "sb_gdt_blocks g = 2" using True by (simp add: sb_gdt_blocks_def)
  have "reserve_sb_gdt P g
          = Inr (g\<lparr>block_bitmap := bm1, free_blocks_count := free_blocks_count g - 2\<rparr>, 3)"
    unfolding reserve_sb_gdt_def Let_def by (simp only: True if_True bm0 bm1 then_do_Inr simp_thms)
  moreover have "{0..<2::nat} = {0, 1}" by auto
  then have "set_bits bm1 = set_bits (block_bitmap g) \<union> {0..<2}"
    using set_bits_after [OF bm0] set_bits_after [OF bm1] by auto
  ultimately show ?thesis
    unfolding b using True len0 len1 by (intro exI [of _ bm1]) simp
next
  case False
  have b: "sb_gdt_blocks g = 0" using False by (simp add: sb_gdt_blocks_def)
  have "reserve_sb_gdt P g = Inr (g, group_id g * BLOCKS_PER_GROUP P + 1)"
    unfolding reserve_sb_gdt_def Let_def using False by simp
  then show ?thesis
    unfolding b by (intro exI [of _ "block_bitmap g"]) simp
qed

lemma alloc_metadata_total:
  assumes "sb_gdt_blocks g + 2 + inode_table_blocks P \<le> 8 * length (block_bitmap g)"
  shows "\<exists>bm. alloc_metadata P g
            = Inr (g\<lparr>block_bitmap_blk := group_id g * BLOCKS_PER_GROUP P + 1 + sb_gdt_blocks g,
                     inode_bitmap_blk := group_id g * BLOCKS_PER_GROUP P + 1 + sb_gdt_blocks g + 1,
                     inode_table_blk := group_id g * BLOCKS_PER_GROUP P + 1 + sb_gdt_blocks g + 2,
                     block_bitmap := bm,
                     free_blocks_count := free_blocks_count g
                        - int (sb_gdt_blocks g + 2 + inode_table_blocks P)\<rparr>)
          \<and> set_bits bm
            = set_bits (block_bitmap g) \<union> {0..<sb_gdt_blocks g + 2 + inode_table_blocks P}
          \<and> length bm = length (block_bitmap g)"
proof -
  define first where "first = group_id g * BLOCKS_PER_GROUP P + 1"
  define b where "b = sb_gdt_blocks g"
  define n where "n = inode_table_blocks P"
  define ca where "ca = first + b"
  from assms have "0 < length (block_bitmap g)" by auto
  from reserve_sb_gdt_total [OF this, of P] obtain bm0 where
    r0: "reserve_sb_gdt P g
           = Inr (g\<lparr>block_bitmap := bm0, free_blocks_count := free_blocks_count g - int b\<rparr>, ca)"
    and bits0: "set_bits bm0 = set_bits (block_bitmap g) \<union> {0..<b}"
    and len0: "length bm0 = length (block_bitmap g)"
    unfolding ca_def first_def b_def by blast
  define g0 where
    "g0 = g\<lparr>block_bitmap := bm0, free_blocks_count := free_blocks_count g - int b\<rparr>"
  have g0: "group_id g0 = group_id g" "block_bitmap g0 = bm0"
    "free_blocks_count g0 = free_blocks_count g - int b"
    by (simp_all add: g0_def)
  have "ca - (group_id (g0\<lparr>block_bitmap_blk := ca\<rparr>) * BLOCKS_PER_GROUP P + 1)
          < 8 * length (block_bitmap (g0\<lparr>block_bitmap_blk := ca\<rparr>))"
    using assms len0 by (simp add: g0 ca_def first_def b_def)
  from mark_block_total [OF this] obtain bm1 where
    r1: "mark_block P ca (g0\<lparr>block_bitmap_blk := ca\<rparr>)
           = Inr (g0\<lparr>block_bitmap_blk := ca, block_bitmap := bm1,
                      free_blocks_count := free_blocks_count (g0\<lparr>block_bitmap_blk := ca\<rparr>) - 1\<rparr>)"
    and bits1: "set_bits bm1 = insert b (set_bits bm0)"
    and len1: "length bm1 = length bm0"
    by (auto simp: g0 ca_def first_def)
  define g1 where
    "g1 = g0\<lparr>block_bitmap_blk := ca, block_bitmap := bm1,
             free_blocks_count := free_blocks_count (g0\<lparr>block_bitmap_blk := ca\<rparr>) - 1\<rparr>"
  have g1: "group_id g1 = group_id g" "block_bitmap g1 = bm1"
    "free_blocks_count g1 = free_blocks_count g - int b - 1"
    by (simp_all add: g1_def g0)
  have "ca + 1 - (group_id (g1\<lparr>inode_bitmap_blk := ca + 1\<rparr>) * BLOCKS_PER_GROUP P + 1)
          < 8 * length (block_bitmap (g1\<lparr>inode_bitmap_blk := ca + 1\<rparr>))"
    using assms len0 len1 by (simp add: g1 ca_def first_def b_def)
  from mark_block_total [OF this] obtain bm2 where
    r2: "mark_block P (ca + 1) (g1\<lparr>inode_bitmap_blk := ca + 1\<rparr>)
           = Inr (g1\<lparr>inode_bitmap_blk := ca + 1, block_bitmap := bm2,
                      free_blocks_count :=
                        free_blocks_count (g1\<lparr>inode_bitmap_blk := ca + 1\<rparr>) - 1\<rparr>)"
    and bits2: "set_bits bm2 = insert (b + 1) (set_bits bm1)"
    and len2: "length bm2 = length bm1"
    by (auto simp: g1 ca_def first_def)
  define g2 where
    "g2 = g1\<lparr>inode_bitmap_blk := ca + 1, block_bitmap := bm2,
             free_blocks_count := free_blocks_count (g1\<lparr>inode_bitmap_blk := ca + 1\<rparr>) - 1\<rparr>"
  have g2: "group_id g2 = group_id g" "block_bitmap g2 = bm2"
    "free_blocks_count g2 = free_blocks_count g - int b - 2"
    by (simp_all add: g2_def g1)
  have "first = group_id (g2\<lparr>inode_table_blk := ca + 2\<rparr>) * BLOCKS_PER_GROUP P + 1"
    by (simp add: g2 first_def)
  moreover have "first \<le> ca + 2" by (simp add: ca_def)
  moreover have "ca + 2 - first + n \<le> 8 * length (block_bitmap (g2\<lparr>inode_table_blk := ca + 2\<rparr>))"
    using assms len0 len1 len2 by (simp add: g2 ca_def b_def n_def)
  ultimately obtain bm3 where
    r3: "for_each (\<lambda>k. mark_block P (ca + 2 + k)) [0..<n] (g2\<lparr>inode_table_blk := ca + 2\<rparr>)
           = Inr (g2\<lparr>inode_table_blk := ca + 2, block_bitmap := bm3,
                      free_blocks_count :=
                        free_blocks_count (g2\<lparr>inode_table_blk := ca + 2\<rparr>) - int n\<rparr>)"
    and bits3: "set_bits bm3
                  = set_bits (block_bitmap (g2\<lparr>inode_table_blk := ca + 2\<rparr>))
                    \<union> {ca + 2 - first ..< ca + 2 - first + n}"
    and len3: "length bm3 = length (block_bitmap (g2\<lparr>inode_table_blk := ca + 2\<rparr>))"
    using mark_blocks_range [of first "g2\<lparr>inode_table_blk := ca + 2\<rparr>" P "ca + 2" n] by blast
  have run: "alloc_metadata P g
          = Inr (g2\<lparr>inode_table_blk := ca + 2, block_bitmap := bm3,
                      free_blocks_count :=
                        free_blocks_count (g2\<lparr>inode_table_blk := ca + 2\<rparr>) - int n\<rparr>)"
    unfolding alloc_metadata_def n_def [symmetric]
    by (simp only: r0 then_do_Inr prod.case g0_def [symmetric] r1 g1_def [symmetric] r2
        g2_def [symmetric] r3)
  have eq: "g2\<lparr>inode_table_blk := ca + 2, block_bitmap := bm3,
                      free_blocks_count :=
                        free_blocks_count (g2\<lparr>inode_table_blk := ca + 2\<rparr>) - int n\<rparr>
       = g\<lparr>block_bitmap_blk := ca, inode_bitmap_blk := ca + 1, inode_table_blk := ca + 2,
           block_bitmap := bm3, free_blocks_count := free_blocks_count g - int (b + 2 + n)\<rparr>"
    by (simp add: g2_def g1_def g0_def)
  have "set_bits bm3 = set_bits (block_bitmap g) \<union> {0..<b + 2 + n}"
    using bits0 bits1 bits2 bits3 by (auto simp: g2 ca_def)
  moreover have "length bm3 = length (block_bitmap g)"
    using len0 len1 len2 len3 by (simp add: g2)
  ultimately show ?thesis
    using run [unfolded eq] unfolding ca_def first_def b_def n_def
    by blast
qed

lemma inodes_in_empty [simp]: "inodes_in P {} k = {}"
  by (simp add: inodes_in_def)

lemma inodes_in_insert:
  "inodes_in P (insert j T) k
     = (if j div INODES_PER_GROUP P = k then insert j (inodes_in P T k) else inodes_in P T k)"
  by (auto simp: inodes_in_def)

lemma finite_inodes_in: "finite T \<Longrightarrow> finite (inodes_in P T k)"
  by (simp add: inodes_in_def)

lemma map_err_total:
  assumes "\<And>x. x \<in> set xs \<Longrightarrow> \<exists>y. f x = Inr y \<and> Q x y"
  shows "\<exists>ys. map_err f xs = Inr ys \<and> length ys = length xs
           \<and> (\<forall>k<length xs. Q (xs ! k) (ys ! k))"
  using assms
proof (induction xs)
  case Nil
  then show ?case by simp
next
  case (Cons x xs)
  from Cons.prems obtain y where y: "f x = Inr y" "Q x y" by auto
  from Cons obtain ys where ys: "map_err f xs = Inr ys" "length ys = length xs"
    "\<forall>k<length xs. Q (xs ! k) (ys ! k)" by auto
  have "map_err f (x # xs) = Inr (y # ys)" using y ys by simp
  moreover have "\<forall>k<length (x # xs). Q ((x # xs) ! k) ((y # ys) ! k)"
    using y ys by (auto simp: nth_Cons split: nat.splits)
  ultimately show ?case using ys by auto
qed

lemma alloc_metadata_init:
  assumes "metadata_blocks P i \<le> 8 * BLOCK_SIZE P"
  shows "\<exists>g. alloc_metadata P (BlockGroup_init P i) = Inr g \<and> group_ok P (metadata_blocks P) (\<lambda>_. 0) {} i g
    \<and> block_bitmap_blk g = i * BLOCKS_PER_GROUP P + 1 + (if i = 0 then 2 else 0)
    \<and> inode_bitmap_blk g = i * BLOCKS_PER_GROUP P + 1 + (if i = 0 then 2 else 0) + 1
    \<and> inode_table_blk g = i * BLOCKS_PER_GROUP P + 1 + (if i = 0 then 2 else 0) + 2"
proof -
  let ?g = "BlockGroup_init P i"
  have sel: "group_id ?g = i" "block_bitmap ?g = replicate (BLOCK_SIZE P) 0"
    "inode_bitmap ?g = replicate (BLOCK_SIZE P) 0"
    "free_blocks_count ?g = int (BLOCKS_PER_GROUP P)"
    "free_inodes_count ?g = int (INODES_PER_GROUP P)"
    "used_dirs_count ?g = 0"
    by (simp_all add: BlockGroup_init_def)
  have b: "sb_gdt_blocks ?g = (if i = 0 then 2 else 0)"
    by (simp add: sb_gdt_blocks_def sel)
  have "sb_gdt_blocks ?g + 2 + inode_table_blocks P \<le> 8 * length (block_bitmap ?g)"
    using assms by (simp add: b sel metadata_blocks_def)
  from alloc_metadata_total [OF this] obtain bm where
    run: "alloc_metadata P ?g
            = Inr (?g\<lparr>block_bitmap_blk := group_id ?g * BLOCKS_PER_GROUP P + 1 + sb_gdt_blocks ?g,
                     inode_bitmap_blk := group_id ?g * BLOCKS_PER_GROUP P + 1 + sb_gdt_blocks ?g + 1,
                     inode_table_blk := group_id ?g * BLOCKS_PER_GROUP P + 1 + sb_gdt_blocks ?g + 2,
                     block_bitmap := bm,
                     free_blocks_count := free_blocks_count ?g
                        - int (sb_gdt_blocks ?g + 2 + inode_table_blocks P)\<rparr>)"
    and bits: "set_bits bm
            = set_bits (block_bitmap ?g) \<union> {0..<sb_gdt_blocks ?g + 2 + inode_table_blocks P}"
    and len: "length bm = length (block_bitmap ?g)"
    by blast
  show ?thesis
    unfolding run
    by (intro exI conjI, rule refl)
      (simp_all add: group_ok_def sel b bits len metadata_blocks_def)
qed

section \<open>The passes over the groups\<close>

lemma metadata_pass:
  assumes "metadata_blocks P 0 \<le> 8 * BLOCK_SIZE P"
  shows "\<exists>gs. map_err (alloc_metadata P) (map (BlockGroup_init P) [0..<GROUP_COUNT P]) = Inr gs
           \<and> groups_ok P (metadata_blocks P) (\<lambda>_. 0) {} gs"
proof -
  let ?xs = "map (BlockGroup_init P) [0..<GROUP_COUNT P]"
  let ?Q = "\<lambda>x y. group_ok P (metadata_blocks P) (\<lambda>_. 0) {} (group_id x) y"
  have "\<exists>y. alloc_metadata P x = Inr y \<and> ?Q x y" if "x \<in> set ?xs" for x
  proof -
    from that obtain i where x: "x = BlockGroup_init P i" by auto
    have "metadata_blocks P i \<le> metadata_blocks P 0" by (simp add: metadata_blocks_def)
    with assms have "metadata_blocks P i \<le> 8 * BLOCK_SIZE P" by simp
    from alloc_metadata_init [OF this] show ?thesis
      unfolding x by (auto simp: BlockGroup_init_def)
  qed
  from map_err_total [of ?xs "alloc_metadata P" ?Q, OF this] obtain gs where
    gs: "map_err (alloc_metadata P) ?xs = Inr gs" "length gs = length ?xs"
      "\<forall>k<length ?xs. ?Q (?xs ! k) (gs ! k)"
    by blast
  have "groups_ok P (metadata_blocks P) (\<lambda>_. 0) {} gs"
    using gs(2,3) by (simp add: groups_ok_def BlockGroup_init_def)
  with gs(1) show ?thesis by blast
qed

lemma mark_inode_ok:
  assumes ok: "groups_ok P M D T gs"
    and fin: "finite T"
    and ipg: "0 < INODES_PER_GROUP P" "INODES_PER_GROUP P \<le> 8 * BLOCK_SIZE P"
    and i: "0 < i" "i - 1 \<notin> T" "(i - 1) div INODES_PER_GROUP P < GROUP_COUNT P"
  shows "\<exists>gs'. mark_inode P i gs = Inr gs' \<and> groups_ok P M D (insert (i - 1) T) gs'
           \<and> map used_dirs_count gs' = map used_dirs_count gs"
proof -
  let ?n = "INODES_PER_GROUP P"
  let ?grp = "(i - 1) div ?n" and ?off = "(i - 1) mod ?n"
  let ?g = "gs ! ?grp"
  from ok have len: "length gs = GROUP_COUNT P"
    and all: "\<And>k. k < length gs \<Longrightarrow> group_ok P M D T k (gs ! k)"
    by (simp_all add: groups_ok_def)
  have grp: "?grp < length gs" using i(3) len by simp
  have g: "group_ok P M D T ?grp ?g" using all grp by simp
  have "?off < 8 * length (inode_bitmap ?g)"
    using g ipg by (simp add: group_ok_def) (meson less_le_trans mod_less_divisor)
  from set_bit_at_Inr [OF this] obtain bm where bm: "set_bit_at (inode_bitmap ?g) ?off = Inr bm"
    by blast
  let ?g' = "?g\<lparr>inode_bitmap := bm, free_inodes_count := free_inodes_count ?g - 1\<rparr>"
  have run: "mark_inode P i gs = Inr (gs[?grp := ?g'])"
    using ipg(1) grp bm by (simp add: mark_inode_def Let_def)
  have new: "inodes_in P (insert (i - 1) T) ?grp = insert (i - 1) (inodes_in P T ?grp)"
    by (simp add: inodes_in_insert)
  have old: "inodes_in P (insert (i - 1) T) k = inodes_in P T k" if "k \<noteq> ?grp" for k
    using that by (auto simp: inodes_in_insert)
  have "i - 1 \<notin> inodes_in P T ?grp" using i(2) by (simp add: inodes_in_def)
  then have card: "card (insert (i - 1) (inodes_in P T ?grp)) = Suc (card (inodes_in P T ?grp))"
    using finite_inodes_in [OF fin] by simp
  have g': "group_ok P M D (insert (i - 1) T) ?grp ?g'"
    using g set_bits_after [OF bm] set_bit_at_length [OF bm]
    unfolding group_ok_def new card by simp
  have "group_ok P M D (insert (i - 1) T) k (gs[?grp := ?g'] ! k)" if "k < length gs" for k
  proof (cases "k = ?grp")
    case True
    then show ?thesis using g' grp by simp
  next
    case False
    then have "gs[?grp := ?g'] ! k = gs ! k" by simp
    then show ?thesis
      using all [OF that] unfolding group_ok_def old [OF False] by simp
  qed
  then have "groups_ok P M D (insert (i - 1) T) (gs[?grp := ?g'])"
    using len by (simp add: groups_ok_def)
  moreover have "map used_dirs_count (gs[?grp := ?g']) = map used_dirs_count gs"
    using grp by (simp add: map_update list_update_same_conv)
  ultimately show ?thesis using run by blast
qed

lemma groups_ok_used_dirs:
  assumes "groups_ok P M D T gs"
  shows "groups_ok P M (D(k := c)) T (gs[k := (gs ! k)\<lparr>used_dirs_count := c\<rparr>])"
proof -
  have "group_ok P M (D(k := c)) T j (gs[k := (gs ! k)\<lparr>used_dirs_count := c\<rparr>] ! j)"
    if "j < length gs" for j
    using assms that by (cases "j = k") (simp_all add: groups_ok_def group_ok_def)
  then show ?thesis using assms by (simp add: groups_ok_def)
qed

lemma alloc_dir_inode_ok:
  assumes ok: "groups_ok P M D T gs"
    and fin: "finite T"
    and ipg: "0 < INODES_PER_GROUP P" "INODES_PER_GROUP P \<le> 8 * BLOCK_SIZE P"
    and i: "0 < i" "i - 1 \<notin> T" "(i - 1) div INODES_PER_GROUP P < GROUP_COUNT P"
  shows "\<exists>gs'. alloc_dir_inode P i gs = Inr gs'
           \<and> groups_ok P M (D((i - 1) div INODES_PER_GROUP P
                                 := D ((i - 1) div INODES_PER_GROUP P) + 1))
                (insert (i - 1) T) gs'"
proof -
  let ?grp = "(i - 1) div INODES_PER_GROUP P"
  from mark_inode_ok [OF assms] obtain gs1 where
    gs1: "mark_inode P i gs = Inr gs1" "groups_ok P M D (insert (i - 1) T) gs1"
    by blast
  from gs1(2) i(3) have "group_ok P M D (insert (i - 1) T) ?grp (gs1 ! ?grp)"
    by (simp add: groups_ok_def)
  then have c: "used_dirs_count (gs1 ! ?grp) = D ?grp" by (simp add: group_ok_def)
  have "alloc_dir_inode P i gs
          = Inr (gs1[?grp := (gs1 ! ?grp)\<lparr>used_dirs_count := D ?grp + 1\<rparr>])"
    unfolding alloc_dir_inode_def Let_def using gs1(1) c by simp
  with groups_ok_used_dirs [OF gs1(2), of ?grp "D ?grp + 1"] show ?thesis by simp
qed

lemma reserve_inodes_ok:
  assumes "groups_ok P M D T gs"
    and "finite T"
    and ipg: "0 < INODES_PER_GROUP P" "INODES_PER_GROUP P \<le> 8 * BLOCK_SIZE P"
    and "distinct is"
    and "\<And>i. i \<in> set is \<Longrightarrow> 0 < i \<and> i - 1 \<notin> T \<and> (i - 1) div INODES_PER_GROUP P < GROUP_COUNT P"
  shows "\<exists>gs'. for_each (mark_inode P) is gs = Inr gs'
           \<and> groups_ok P M D (T \<union> (\<lambda>i. i - 1) ` set is) gs'"
  using assms(1,2,5,6)
proof (induction "is" arbitrary: gs T)
  case Nil
  then show ?case by simp
next
  case (Cons i "is")
  have i: "0 < i" "i - 1 \<notin> T" "(i - 1) div INODES_PER_GROUP P < GROUP_COUNT P"
    using Cons.prems(4) by auto
  from mark_inode_ok [OF Cons.prems(1,2) ipg i] obtain gs1 where
    gs1: "mark_inode P i gs = Inr gs1" "groups_ok P M D (insert (i - 1) T) gs1"
    by blast
  have "0 < k \<and> k - 1 \<notin> insert (i - 1) T \<and> (k - 1) div INODES_PER_GROUP P < GROUP_COUNT P"
    if "k \<in> set is" for k
  proof -
    have "k \<noteq> i" using that Cons.prems(3) by auto
    moreover have "0 < k" "0 < i" using that Cons.prems(4) by auto
    ultimately have "k - 1 \<noteq> i - 1" by arith
    then show ?thesis using that Cons.prems(4) by auto
  qed
  moreover have "distinct is" "finite (insert (i - 1) T)" using Cons.prems by auto
  ultimately obtain gs' where
    "for_each (mark_inode P) is gs1 = Inr gs'"
    "groups_ok P M D (insert (i - 1) T \<union> (\<lambda>i. i - 1) ` set is) gs'"
    using Cons.IH [OF gs1(2)] by blast
  then show ?case using gs1(1) by auto
qed

section \<open>The first-fit scan\<close>

lemma bit_is_set_mem: "i < 8 * length bm \<Longrightarrow> bit_is_set bm i \<longleftrightarrow> i \<in> set_bits bm"
  by (simp add: set_bits_def)

lemma scan_free_spec:
  assumes "n \<le> 8 * length bm"
  shows "\<exists>r. scan_free n bm i = Inr r \<and>
          (case r of
             Some j \<Rightarrow> i \<le> j \<and> j < n \<and> j \<notin> set_bits bm \<and> (\<forall>k. i \<le> k \<and> k < j \<longrightarrow> k \<in> set_bits bm)
           | None \<Rightarrow> (\<forall>k. i \<le> k \<and> k < n \<longrightarrow> k \<in> set_bits bm))"
  using assms
proof (induction n bm i rule: scan_free.induct)
  case (1 n bm i)
  show ?case
  proof (cases "n \<le> i")
    case True
    then have "scan_free n bm i = Inr None" by (simp add: scan_free.simps)
    then show ?thesis using True by auto
  next
    case False
    then have i: "i < 8 * length bm" using "1.prems" by simp
    then have idx: "\<not> length bm \<le> i div 8" by simp
    show ?thesis
    proof (cases "bit_is_set bm i")
      case False
      then have "scan_free n bm i = Inr (Some i)"
        using \<open>\<not> n \<le> i\<close> idx by (subst scan_free.simps) (simp add: bit_is_set_def)
      then show ?thesis
        using \<open>\<not> n \<le> i\<close> False i by (auto simp: bit_is_set_mem)
    next
      case True
      then have step: "scan_free n bm i = scan_free n bm (Suc i)"
        using \<open>\<not> n \<le> i\<close> idx by (subst scan_free.simps) (simp add: bit_is_set_def)
      have "bm ! (i div 8) AND push_bit (i mod 8) 1 \<noteq> 0"
        using True by (simp add: bit_is_set_def)
      from "1.IH" [OF \<open>\<not> n \<le> i\<close> idx this "1.prems"] obtain r where
        r: "scan_free n bm (Suc i) = Inr r"
          "case r of
             Some j \<Rightarrow> Suc i \<le> j \<and> j < n \<and> j \<notin> set_bits bm
                        \<and> (\<forall>k. Suc i \<le> k \<and> k < j \<longrightarrow> k \<in> set_bits bm)
           | None \<Rightarrow> (\<forall>k. Suc i \<le> k \<and> k < n \<longrightarrow> k \<in> set_bits bm)"
        by blast
      have mem: "i \<in> set_bits bm" using True i by (simp add: bit_is_set_mem)
      have "case r of
             Some j \<Rightarrow> i \<le> j \<and> j < n \<and> j \<notin> set_bits bm
                        \<and> (\<forall>k. i \<le> k \<and> k < j \<longrightarrow> k \<in> set_bits bm)
           | None \<Rightarrow> (\<forall>k. i \<le> k \<and> k < n \<longrightarrow> k \<in> set_bits bm)"
      proof (cases r)
        case None
        with r(2) have a: "\<And>k. Suc i \<le> k \<Longrightarrow> k < n \<Longrightarrow> k \<in> set_bits bm" by simp
        have "k \<in> set_bits bm" if "i \<le> k" "k < n" for k
        proof (cases "k = i")
          case True
          then show ?thesis using mem by simp
        next
          case False
          with that(1) have "Suc i \<le> k" by arith
          then show ?thesis using a that(2) by simp
        qed
        then show ?thesis using None by simp
      next
        case (Some j)
        with r(2) have j: "Suc i \<le> j" "j < n" "j \<notin> set_bits bm"
          and a: "\<And>k. Suc i \<le> k \<Longrightarrow> k < j \<Longrightarrow> k \<in> set_bits bm" by simp_all
        have "k \<in> set_bits bm" if "i \<le> k" "k < j" for k
        proof (cases "k = i")
          case True
          then show ?thesis using mem by simp
        next
          case False
          with that(1) have "Suc i \<le> k" by arith
          then show ?thesis using a that(2) by simp
        qed
        then show ?thesis using Some j by simp
      qed
      then show ?thesis using step r(1) by simp
    qed
  qed
qed

lemma scan_free_prefix:
  assumes "set_bits bm = {0..<m}" and "n \<le> 8 * length bm"
  shows "scan_free n bm 0 = Inr (if m < n then Some m else None)"
proof -
  from scan_free_spec [OF assms(2), of 0] obtain r where
    r: "scan_free n bm 0 = Inr r"
      "case r of
         Some j \<Rightarrow> 0 \<le> j \<and> j < n \<and> j \<notin> set_bits bm \<and> (\<forall>k. 0 \<le> k \<and> k < j \<longrightarrow> k \<in> set_bits bm)
       | None \<Rightarrow> (\<forall>k. 0 \<le> k \<and> k < n \<longrightarrow> k \<in> set_bits bm)"
    by blast
  have "r = (if m < n then Some m else None)"
  proof (cases r)
    case None
    with r(2) have "\<forall>k<n. k < m" by (simp add: assms(1))
    then have "\<not> m < n" by auto
    then show ?thesis using None by simp
  next
    case (Some j)
    with r(2) have j: "j < n" "\<not> j < m" "\<forall>k<j. k < m" by (simp_all add: assms(1))
    from j(3) have "\<not> m < j" by auto
    with j(2) have "j = m" by arith
    then show ?thesis using Some j by simp
  qed
  with r(1) show ?thesis by simp
qed

lemma alloc_data_block_found:
  assumes "BLOCKS_PER_GROUP P \<le> 8 * length (block_bitmap g)"
    and "\<exists>i<BLOCKS_PER_GROUP P. i \<notin> set_bits (block_bitmap g)"
  shows "\<exists>i bm. alloc_data_block P g
              = Inr (g\<lparr>block_bitmap := bm, free_blocks_count := free_blocks_count g - 1\<rparr>,
                     group_id g * BLOCKS_PER_GROUP P + 1 + i)
            \<and> i < BLOCKS_PER_GROUP P \<and> i \<notin> set_bits (block_bitmap g)
            \<and> (\<forall>k<i. k \<in> set_bits (block_bitmap g))
            \<and> set_bits bm = insert i (set_bits (block_bitmap g))
            \<and> length bm = length (block_bitmap g)"
proof -
  let ?bm = "block_bitmap g" and ?n = "BLOCKS_PER_GROUP P"
  from scan_free_spec [OF assms(1), of 0] obtain r where
    r: "scan_free ?n ?bm 0 = Inr r"
      "case r of
         Some j \<Rightarrow> 0 \<le> j \<and> j < ?n \<and> j \<notin> set_bits ?bm \<and> (\<forall>k. 0 \<le> k \<and> k < j \<longrightarrow> k \<in> set_bits ?bm)
       | None \<Rightarrow> (\<forall>k. 0 \<le> k \<and> k < ?n \<longrightarrow> k \<in> set_bits ?bm)"
    by blast
  from assms(2) r(2) obtain i where i: "r = Some i" by (cases r) auto
  with r(2) have props: "i < ?n" "i \<notin> set_bits ?bm" "\<forall>k<i. k \<in> set_bits ?bm" by simp_all
  have "i < 8 * length ?bm" using props(1) assms(1) by simp
  from set_bit_at_Inr [OF this] obtain bm where bm: "set_bit_at ?bm i = Inr bm" by blast
  have "alloc_data_block P g
          = Inr (g\<lparr>block_bitmap := bm, free_blocks_count := free_blocks_count g - 1\<rparr>,
                 group_id g * ?n + 1 + i)"
    unfolding alloc_data_block_def by (simp add: r(1) i bm)
  with props set_bits_after [OF bm] set_bit_at_length [OF bm] show ?thesis by blast
qed

lemma alloc_data_block_none:
  assumes "BLOCKS_PER_GROUP P \<le> 8 * length (block_bitmap g)"
    and "\<forall>i<BLOCKS_PER_GROUP P. i \<in> set_bits (block_bitmap g)"
  shows "alloc_data_block P g = Inr (g, 0)"
proof -
  let ?bm = "block_bitmap g" and ?n = "BLOCKS_PER_GROUP P"
  from scan_free_spec [OF assms(1), of 0] obtain r where
    r: "scan_free ?n ?bm 0 = Inr r"
      "case r of
         Some j \<Rightarrow> 0 \<le> j \<and> j < ?n \<and> j \<notin> set_bits ?bm \<and> (\<forall>k. 0 \<le> k \<and> k < j \<longrightarrow> k \<in> set_bits ?bm)
       | None \<Rightarrow> (\<forall>k. 0 \<le> k \<and> k < ?n \<longrightarrow> k \<in> set_bits ?bm)"
    by blast
  from assms(2) r(2) have "r = None" by (cases r) auto
  then show ?thesis unfolding alloc_data_block_def by (simp add: r(1))
qed

lemma data_block_in_ok:
  assumes ok: "groups_ok P M D T gs"
    and k: "k < GROUP_COUNT P"
    and n: "BLOCKS_PER_GROUP P \<le> 8 * BLOCK_SIZE P"
  shows "\<exists>gs'. data_block_in P k gs = Inr (gs', data_block_addr P M k)
           \<and> groups_ok P (after_data_block P M k) D T gs'"
proof -
  let ?g = "gs ! k" and ?n = "BLOCKS_PER_GROUP P"
  from ok have len: "length gs = GROUP_COUNT P"
    and all: "\<And>j. j < length gs \<Longrightarrow> group_ok P M D T j (gs ! j)"
    by (simp_all add: groups_ok_def)
  have kl: "k < length gs" using k len by simp
  have g: "group_ok P M D T k ?g" using all kl by simp
  then have bits: "set_bits (block_bitmap ?g) = {0..<M k}"
    and blen: "length (block_bitmap ?g) = BLOCK_SIZE P" and gid: "group_id ?g = k"
    by (simp_all add: group_ok_def)
  have fit: "?n \<le> 8 * length (block_bitmap ?g)" using n blen by simp
  show ?thesis
  proof (cases "M k < ?n")
    case True
    then have "\<exists>i<?n. i \<notin> set_bits (block_bitmap ?g)" using bits by auto
    from alloc_data_block_found [OF fit this] obtain i bm where
      run: "alloc_data_block P ?g
              = Inr (?g\<lparr>block_bitmap := bm, free_blocks_count := free_blocks_count ?g - 1\<rparr>,
                     group_id ?g * ?n + 1 + i)"
      and i: "i < ?n" "i \<notin> set_bits (block_bitmap ?g)" "\<forall>j<i. j \<in> set_bits (block_bitmap ?g)"
      and bm: "set_bits bm = insert i (set_bits (block_bitmap ?g))"
        "length bm = length (block_bitmap ?g)"
      by blast
    from i(2) have "\<not> i < M k" by (simp add: bits)
    moreover from i(3) have "\<not> M k < i" by (auto simp: bits)
    ultimately have im: "i = M k" by arith
    let ?g' = "?g\<lparr>block_bitmap := bm, free_blocks_count := free_blocks_count ?g - 1\<rparr>"
    have M': "after_data_block P M k = M(k := Suc (M k))"
      and addr: "data_block_addr P M k = k * ?n + 1 + M k"
      using True by (simp_all add: after_data_block_def data_block_addr_def)
    have res: "data_block_in P k gs = Inr (gs[k := ?g'], data_block_addr P M k)"
      unfolding data_block_in_def addr using kl run by (simp add: gid im)
    have "insert (M k) {0..<M k} = {0..<Suc (M k)}" by auto
    then have g': "group_ok P (M(k := Suc (M k))) D T k ?g'"
      using g bm by (simp add: group_ok_def im)
    have "group_ok P (M(k := Suc (M k))) D T j (gs[k := ?g'] ! j)" if "j < length gs" for j
    proof (cases "j = k")
      case True
      then show ?thesis using g' kl by simp
    next
      case False
      then show ?thesis using all [OF that] by (simp add: group_ok_def)
    qed
    then have "groups_ok P (after_data_block P M k) D T (gs[k := ?g'])"
      unfolding M' using len by (simp add: groups_ok_def)
    with res show ?thesis by blast
  next
    case False
    then have "\<forall>i<?n. i \<in> set_bits (block_bitmap ?g)" using bits by auto
    from alloc_data_block_none [OF fit this]
    have "data_block_in P k gs = Inr (gs, 0)"
      unfolding data_block_in_def using kl by simp
    then show ?thesis
      using False ok by (simp add: after_data_block_def data_block_addr_def)
  qed
qed

section \<open>The allocation passes run to their end\<close>

lemma reserved_list: "filter (\<lambda>i. i \<noteq> 2) [1..<11] = [1, 3, 4, 5, 6, 7, 8, 9, 10 :: nat]"
  by code_simp

lemma inode_group_bound:
  assumes "0 < INODES_PER_GROUP P" "11 \<le> INODE_COUNT P" "j \<le> 10"
  shows "j div INODES_PER_GROUP P < GROUP_COUNT P"
proof -
  have "j < GROUP_COUNT P * INODES_PER_GROUP P"
    using assms(2,3) by (simp add: INODE_COUNT_def mult.commute)
  then show ?thesis using assms(1) by (simp add: div_less_iff_less_mult)
qed

lemma allocate_total:
  assumes wf: "well_formed P"
  shows "\<exists>L. allocate P = Inr L
           \<and> groups_ok P (blocks_final P) (dirs_final P) {0..<11} (groups L)
           \<and> root_data_block L = data_block_addr P (metadata_blocks P) 0
           \<and> lf_data_block L = data_block_addr P (blocks_after_root P) (lf_group_idx P)"
proof -
  from wf have bs: "0 < BLOCK_SIZE P" and bpg: "0 < BLOCKS_PER_GROUP P"
    and ipg: "0 < INODES_PER_GROUP P" "INODES_PER_GROUP P \<le> 8 * BLOCK_SIZE P"
    and fit: "BLOCKS_PER_GROUP P \<le> 8 * BLOCK_SIZE P"
    and meta: "metadata_blocks P 0 \<le> 8 * BLOCK_SIZE P"
    and cnt: "11 \<le> INODE_COUNT P"
    by (simp_all add: well_formed_def)
  note grp = inode_group_bound [OF ipg(1) cnt]
  have g0: "0 < GROUP_COUNT P" using grp [of 0] by simp
  have glf: "lf_group_idx P < GROUP_COUNT P"
    using grp [of 10] by (simp add: lf_group_idx_def lf_inode_index_def)
  from metadata_pass [OF meta] obtain gs1 where
    s1: "map_err (alloc_metadata P) (map (BlockGroup_init P) [0..<GROUP_COUNT P]) = Inr gs1"
    and ok1: "groups_ok P (metadata_blocks P) (\<lambda>_. 0) {} gs1"
    by blast
  have "(root_inode_index - 1) div INODES_PER_GROUP P < GROUP_COUNT P"
    using grp [of 1] by (simp add: root_inode_index_def)
  from alloc_dir_inode_ok [OF ok1 _ ipg _ _ this] obtain gs2 where
    s2: "alloc_dir_inode P root_inode_index gs1 = Inr gs2"
    and ok2: "groups_ok P (metadata_blocks P) (dirs_after_root P)
                (insert (root_inode_index - 1) {}) gs2"
    unfolding dirs_after_root_def root_group_idx_def by (auto simp: root_inode_index_def)
  have fin2: "finite (insert (root_inode_index - 1) ({}::nat set))" by simp
  have dist: "distinct [1, 3, 4, 5, 6, 7, 8, 9, 10 :: nat]" by simp
  have each: "0 < i \<and> i - 1 \<notin> insert (root_inode_index - 1) {}
          \<and> (i - 1) div INODES_PER_GROUP P < GROUP_COUNT P"
    if "i \<in> set [1, 3, 4, 5, 6, 7, 8, 9, 10 :: nat]" for i
  proof -
    from that have "0 < i" "i \<noteq> 2" "i - 1 \<le> 10" by auto
    then show ?thesis using grp [of "i - 1"] by (auto simp: root_inode_index_def)
  qed
  from reserve_inodes_ok [OF ok2 fin2 ipg dist each] obtain gs3 where
    s3: "for_each (mark_inode P) [1, 3, 4, 5, 6, 7, 8, 9, 10] gs2 = Inr gs3"
    and ok3: "groups_ok P (metadata_blocks P) (dirs_after_root P)
                (insert (root_inode_index - 1) {}
                   \<union> (\<lambda>i. i - 1) ` set [1, 3, 4, 5, 6, 7, 8, 9, 10 :: nat]) gs3"
    by blast
  have T3: "insert (root_inode_index - 1) {}
              \<union> (\<lambda>i. i - 1) ` set [1, 3, 4, 5, 6, 7, 8, 9, 10 :: nat] = {0..<10}"
    by (auto simp: root_inode_index_def)
  from data_block_in_ok [OF ok3 g0 fit] obtain gs4 where
    s4: "data_block_in P 0 gs3 = Inr (gs4, data_block_addr P (metadata_blocks P) 0)"
    and ok4: "groups_ok P (blocks_after_root P) (dirs_after_root P) {0..<10} gs4"
    unfolding T3 blocks_after_root_def by blast
  have "(lf_inode_index - 1) div INODES_PER_GROUP P < GROUP_COUNT P"
    using grp [of 10] by (simp add: lf_inode_index_def)
  from alloc_dir_inode_ok [OF ok4 _ ipg _ _ this] obtain gs5 where
    s5: "alloc_dir_inode P lf_inode_index gs4 = Inr gs5"
    and ok5: "groups_ok P (blocks_after_root P) (dirs_final P)
                (insert (lf_inode_index - 1) {0..<10}) gs5"
    unfolding dirs_final_def lf_group_idx_def by (auto simp: lf_inode_index_def)
  have T5: "insert (lf_inode_index - 1) {0..<10} = {0..<11}"
    by (auto simp: lf_inode_index_def)
  from data_block_in_ok [OF ok5 glf fit] obtain gs6 where
    s6: "data_block_in P (lf_group_idx P) gs5
           = Inr (gs6, data_block_addr P (blocks_after_root P) (lf_group_idx P))"
    and ok6: "groups_ok P (blocks_final P) (dirs_final P) {0..<11} gs6"
    unfolding T5 blocks_final_def by blast
  have run: "allocate P
          = Inr \<lparr>groups = gs6, root_data_block = data_block_addr P (metadata_blocks P) 0,
                 lf_data_block = data_block_addr P (blocks_after_root P) (lf_group_idx P)\<rparr>"
    unfolding allocate_def reserved_list using bs bpg
    by (simp only: s1 s2 s3 s4 s5 s6 then_do_Inr prod.case) simp
  show ?thesis
    unfolding run by (simp add: ok6)
qed

lemma well_formed_default: "well_formed default_params"
  by (simp add: well_formed_def default_params_def metadata_blocks_def inode_table_blocks_def
      INODE_COUNT_def GROUP_COUNT_def BLOCK_COUNT_def)

lemma card_inodes_in_image:
  assumes "0 < INODES_PER_GROUP P"
  shows "card ((\<lambda>j. j mod INODES_PER_GROUP P) ` inodes_in P T k) = card (inodes_in P T k)"
proof -
  have "inj_on (\<lambda>j. j mod INODES_PER_GROUP P) (inodes_in P T k)"
  proof (rule inj_onI)
    fix x y
    assume "x \<in> inodes_in P T k" "y \<in> inodes_in P T k"
      and eq: "x mod INODES_PER_GROUP P = y mod INODES_PER_GROUP P"
    then have "x div INODES_PER_GROUP P = y div INODES_PER_GROUP P"
      by (simp add: inodes_in_def)
    with eq show "x = y" by (metis div_mult_mod_eq)
  qed
  then show ?thesis by (rule card_image)
qed

lemma group_ok_consistent:
  assumes "group_ok P M D T k g" and "0 < INODES_PER_GROUP P"
  shows "int (count_set (block_bitmap g)) = int (BLOCKS_PER_GROUP P) - free_blocks_count g"
    and "int (count_set (inode_bitmap g)) = int (INODES_PER_GROUP P) - free_inodes_count g"
  using assms card_inodes_in_image [OF assms(2), of T k]
  by (simp_all add: group_ok_def count_set_card)

section \<open>The geometry\<close>

text \<open>
  C8: with the default parameters the derived geometry is BLOCK_COUNT = 65536,
  GROUP_COUNT = 8 and INODE_COUNT = 16384.
\<close>

theorem default_geometry:
  "BLOCK_COUNT default_params = 65536 \<and> GROUP_COUNT default_params = 8 \<and>
   INODE_COUNT default_params = 16384"
  by (simp add: BLOCK_COUNT_def GROUP_COUNT_def INODE_COUNT_def default_params_def)

section \<open>Bitmaps and counters\<close>

text \<open>
  C1: after all allocation passes (group metadata, reserved inodes 1 to 10, the root
  directory and lost+found with their data blocks), in every group the number of set
  bits of the block bitmap is the number of blocks per group minus the group's count
  of free blocks, and the number of set bits of the inode bitmap is the number of
  inodes per group minus the group's count of free inodes.  The passes do run to their
  end for well-formed parameters, the shipped ones among them.
\<close>

theorem bitmap_consistency:
  assumes "well_formed P"
  shows "\<exists>L. allocate P = Inr L \<and>
           (\<forall>g \<in> set (groups L).
              int (count_set (block_bitmap g)) = int (BLOCKS_PER_GROUP P) - free_blocks_count g \<and>
              int (count_set (inode_bitmap g)) = int (INODES_PER_GROUP P) - free_inodes_count g)"
proof -
  from allocate_total [OF assms] obtain L where
    L: "allocate P = Inr L" "groups_ok P (blocks_final P) (dirs_final P) {0..<11} (groups L)"
    by blast
  have ipg: "0 < INODES_PER_GROUP P" using assms by (simp add: well_formed_def)
  have "int (count_set (block_bitmap g)) = int (BLOCKS_PER_GROUP P) - free_blocks_count g \<and>
        int (count_set (inode_bitmap g)) = int (INODES_PER_GROUP P) - free_inodes_count g"
    if "g \<in> set (groups L)" for g
  proof -
    from that obtain k where k: "k < length (groups L)" "g = groups L ! k"
      by (auto simp: in_set_conv_nth)
    with L(2) have "group_ok P (blocks_final P) (dirs_final P) {0..<11} k g" by (simp add: groups_ok_def)
    from group_ok_consistent [OF this ipg] show ?thesis by simp
  qed
  with L(1) show ?thesis by blast
qed

theorem bitmap_consistency_witness:
  "\<exists>L. allocate default_params = Inr L \<and>
     (\<forall>g \<in> set (groups L).
        int (count_set (block_bitmap g)) = 8192 - free_blocks_count g \<and>
        int (count_set (inode_bitmap g)) = 2048 - free_inodes_count g)"
  using bitmap_consistency [OF well_formed_default] by (simp add: default_params_def)

section \<open>Conservation of the counts\<close>





section \<open>The metadata blocks of a group\<close>

text \<open>
  C3: group 0 first marks bits 0 and 1 (blocks 1 and 2, superblock and descriptor
  table) and takes 2 from its free-block count, with the block bitmap not yet placed,
  and goes on from block 3; every other group starts at its first block
  \<open>i * BLOCKS_PER_GROUP + 1\<close>.  Then one block for the block bitmap, one for the inode
  bitmap and the blocks of the inode table follow one another; the bits of all these
  blocks, at their positions relative to the group's first block, are set, and the
  free-block count has lost one per block.  The number of inode table blocks is the
  quotient rounded up; the script rounds down, which is the same for an inode table
  that fills whole blocks.
\<close>

theorem metadata_allocation:
  fixes P :: params and i :: nat
  defines "first \<equiv> i * BLOCKS_PER_GROUP P + 1"
    and "r \<equiv> (if i = 0 then 2 else 0)"
    and "n \<equiv> (INODES_PER_GROUP P * INODE_SIZE P + BLOCK_SIZE P - 1) div BLOCK_SIZE P"
  assumes bs: "0 < BLOCK_SIZE P"
    and dvd: "BLOCK_SIZE P dvd INODES_PER_GROUP P * INODE_SIZE P"
    and fit: "r + 2 + n \<le> 8 * BLOCK_SIZE P"
  shows "\<exists>g0 g. reserve_sb_gdt P (BlockGroup_init P i) = Inr (g0, first + r)
           \<and> (i = 0 \<longrightarrow> first + r = 3)
           \<and> set_bits (block_bitmap g0) = {0..<r}
           \<and> free_blocks_count g0 = int (BLOCKS_PER_GROUP P) - int r
           \<and> block_bitmap_blk g0 = 0
           \<and> alloc_metadata P (BlockGroup_init P i) = Inr g
           \<and> block_bitmap_blk g = first + r
           \<and> inode_bitmap_blk g = first + r + 1
           \<and> inode_table_blk g = first + r + 2
           \<and> set_bits (block_bitmap g) = {0..<r + 2 + n}
           \<and> free_blocks_count g = int (BLOCKS_PER_GROUP P) - int (r + 2 + n)"
proof -
  let ?g = "BlockGroup_init P i"
  have sel: "group_id ?g = i" "block_bitmap ?g = replicate (BLOCK_SIZE P) 0"
    "free_blocks_count ?g = int (BLOCKS_PER_GROUP P)" "block_bitmap_blk ?g = 0"
    by (simp_all add: BlockGroup_init_def)
  have b: "sb_gdt_blocks ?g = r" by (simp add: sb_gdt_blocks_def sel r_def)
  from dvd obtain q where q: "INODES_PER_GROUP P * INODE_SIZE P = BLOCK_SIZE P * q"
    by (rule dvdE)
  have "BLOCK_SIZE P * q + BLOCK_SIZE P - 1 = (BLOCK_SIZE P - 1) + BLOCK_SIZE P * q"
    using bs by simp
  then have "n = q + (BLOCK_SIZE P - 1) div BLOCK_SIZE P"
    unfolding n_def q using bs by (simp only: div_mult_self2)
  also have "(BLOCK_SIZE P - 1) div BLOCK_SIZE P = 0" using bs by simp
  finally have n: "inode_table_blocks P = n"
    using bs by (simp add: inode_table_blocks_def q)
  have meta: "metadata_blocks P i = r + 2 + n"
    by (simp add: metadata_blocks_def r_def n)
  have "0 < length (block_bitmap ?g)" using bs by (simp add: sel)
  from reserve_sb_gdt_total [OF this, of P] obtain bm0 where
    r0: "reserve_sb_gdt P ?g
           = Inr (?g\<lparr>block_bitmap := bm0,
                      free_blocks_count := free_blocks_count ?g - int (sb_gdt_blocks ?g)\<rparr>,
                  group_id ?g * BLOCKS_PER_GROUP P + 1 + sb_gdt_blocks ?g)"
    and bits0: "set_bits bm0 = set_bits (block_bitmap ?g) \<union> {0..<sb_gdt_blocks ?g}"
    by blast
  define g0 where
    "g0 = ?g\<lparr>block_bitmap := bm0,
               free_blocks_count := free_blocks_count ?g - int (sb_gdt_blocks ?g)\<rparr>"
  have g0: "reserve_sb_gdt P ?g = Inr (g0, first + r)"
    "set_bits (block_bitmap g0) = {0..<r}"
    "free_blocks_count g0 = int (BLOCKS_PER_GROUP P) - int r"
    "block_bitmap_blk g0 = 0"
    using r0 bits0 unfolding g0_def b sel first_def by (simp_all add: sel)
  have "metadata_blocks P i \<le> 8 * BLOCK_SIZE P" using fit meta by simp
  from alloc_metadata_init [OF this] obtain g where
    g: "alloc_metadata P ?g = Inr g" "group_ok P (metadata_blocks P) (\<lambda>_. 0) {} i g"
      "block_bitmap_blk g = i * BLOCKS_PER_GROUP P + 1 + (if i = 0 then 2 else 0)"
      "inode_bitmap_blk g = i * BLOCKS_PER_GROUP P + 1 + (if i = 0 then 2 else 0) + 1"
      "inode_table_blk g = i * BLOCKS_PER_GROUP P + 1 + (if i = 0 then 2 else 0) + 2"
    by blast
  have three: "i = 0 \<longrightarrow> first + r = 3" by (simp add: first_def r_def)
  have bits: "set_bits (block_bitmap g) = {0..<r + 2 + n}"
    and free: "free_blocks_count g = int (BLOCKS_PER_GROUP P) - int (r + 2 + n)"
    using g(2) unfolding group_ok_def meta by simp_all
  have addr: "block_bitmap_blk g = first + r" "inode_bitmap_blk g = first + r + 1"
    "inode_table_blk g = first + r + 2"
    using g(3,4,5) unfolding first_def r_def by simp_all
  from g0 three g(1) addr bits free show ?thesis by blast
qed

theorem metadata_allocation_witness:
  "(\<exists>g0 g. reserve_sb_gdt default_params (BlockGroup_init default_params 0) = Inr (g0, 3)
      \<and> set_bits (block_bitmap g0) = {0..<2} \<and> free_blocks_count g0 = 8190
      \<and> alloc_metadata default_params (BlockGroup_init default_params 0) = Inr g
      \<and> block_bitmap_blk g = 3 \<and> inode_bitmap_blk g = 4 \<and> inode_table_blk g = 5
      \<and> set_bits (block_bitmap g) = {0..<260} \<and> free_blocks_count g = 7932)
   \<and> (\<exists>g0 g. reserve_sb_gdt default_params (BlockGroup_init default_params 1) = Inr (g0, 8193)
      \<and> set_bits (block_bitmap g0) = {} \<and> free_blocks_count g0 = 8192
      \<and> alloc_metadata default_params (BlockGroup_init default_params 1) = Inr g
      \<and> block_bitmap_blk g = 8193 \<and> inode_bitmap_blk g = 8194 \<and> inode_table_blk g = 8195
      \<and> set_bits (block_bitmap g) = {0..<258} \<and> free_blocks_count g = 7934)"
proof -
  have p: "0 < BLOCK_SIZE default_params"
    "BLOCK_SIZE default_params dvd INODES_PER_GROUP default_params * INODE_SIZE default_params"
    by (simp_all add: default_params_def)
  have n: "(INODES_PER_GROUP default_params * INODE_SIZE default_params
             + BLOCK_SIZE default_params - 1) div BLOCK_SIZE default_params = 256"
    by (simp add: default_params_def)
  have f0: "(if (0::nat) = 0 then 2 else 0) + 2
             + (INODES_PER_GROUP default_params * INODE_SIZE default_params
                 + BLOCK_SIZE default_params - 1) div BLOCK_SIZE default_params
             \<le> 8 * BLOCK_SIZE default_params"
    and f1: "(if (1::nat) = 0 then 2 else 0) + 2
             + (INODES_PER_GROUP default_params * INODE_SIZE default_params
                 + BLOCK_SIZE default_params - 1) div BLOCK_SIZE default_params
             \<le> 8 * BLOCK_SIZE default_params"
    unfolding n by (simp_all add: default_params_def)
  have bpg: "BLOCKS_PER_GROUP default_params = 8192" by (simp add: default_params_def)
  from metadata_allocation [OF p f0] metadata_allocation [OF p f1]
  show ?thesis unfolding n bpg by (simp add: numeral_3_eq_3 [symmetric]) blast
qed



section \<open>Little-endian fields\<close>

lemma upt4: "[0..<4] = [0, 1, 2, 3::nat]" and upt2: "[0..<2] = [0, 1::nat]" and upt1: "[0..<1] = [0::nat]"
  by (simp_all add: upt_rec)

lemma le_bytes_4:
  "le_bytes 4 v =
     (if 0 \<le> v \<and> v < 4294967296
      then Inr [word_of_int v, word_of_int (v div 256), word_of_int (v div 65536),
                word_of_int (v div 16777216)]
      else Inl StructError)"
  by (simp add: le_bytes_def upt4)

lemma le_bytes_2:
  "le_bytes 2 v =
     (if 0 \<le> v \<and> v < 65536 then Inr [word_of_int v, word_of_int (v div 256)]
      else Inl StructError)"
  by (simp add: le_bytes_def upt2)

lemma le_bytes_1:
  "le_bytes (Suc 0) v = (if 0 \<le> v \<and> v < 256 then Inr [word_of_int v] else Inl StructError)"
  by (simp add: le_bytes_def)

lemma unat_byte_of_int: "unat (word_of_int v :: byte) = nat (v mod 256)"
  by (simp add: unat_eq_nat_uint uint_word_of_int)

lemma int_unat_byte: "int (unat (word_of_int v :: byte)) = v mod 256"
  by (simp add: unat_byte_of_int)

lemma u16_value:
  assumes "0 \<le> v" "v < 65536"
  shows "int (unat (word_of_int v :: byte) + 256 * unat (word_of_int (v div 256) :: byte)) = v"
proof -
  have "v div 256 < 256" using assms(2) by (simp add: div_less_iff_less_mult)
  moreover have "0 \<le> v div 256" using assms(1) by (simp add: pos_imp_zdiv_nonneg_iff)
  ultimately have hi: "(v div 256) mod 256 = v div 256" by (rule mod_pos_pos_trivial [rotated])
  have "int (unat (word_of_int v :: byte) + 256 * unat (word_of_int (v div 256) :: byte))
          = v mod 256 + 256 * ((v div 256) mod 256)"
    by (simp only: of_nat_add of_nat_mult int_unat_byte of_nat_numeral)
  also have "\<dots> = v" unfolding hi by (rule mod_mult_div_eq)
  finally show ?thesis .
qed

lemma u32_value:
  assumes "0 \<le> v" "v < 4294967296"
  shows "int (unat (word_of_int v :: byte) + 256 * unat (word_of_int (v div 256) :: byte)
           + 65536 * unat (word_of_int (v div 65536) :: byte)
           + 16777216 * unat (word_of_int (v div 16777216) :: byte)) = v"
proof -
  have "v div 16777216 < 256" using assms(2) by (simp add: div_less_iff_less_mult)
  moreover have "0 \<le> v div 16777216" using assms(1) by (simp add: pos_imp_zdiv_nonneg_iff)
  ultimately have top: "(v div 16777216) mod 256 = v div 16777216"
    by (rule mod_pos_pos_trivial [rotated])
  have d1: "v div 65536 = (v div 256) div 256" and d2: "v div 16777216 = (v div 65536) div 256"
    by (simp_all add: div_mult2_eq [symmetric])
  have e0: "v mod 256 + 256 * (v div 256) = v" by (rule mod_mult_div_eq)
  have e1: "(v div 256) mod 256 + 256 * (v div 65536) = v div 256"
    unfolding d1 by (rule mod_mult_div_eq)
  have e2: "(v div 65536) mod 256 + 256 * (v div 16777216) = v div 65536"
    unfolding d2 by (rule mod_mult_div_eq)
  have "int (unat (word_of_int v :: byte) + 256 * unat (word_of_int (v div 256) :: byte)
           + 65536 * unat (word_of_int (v div 65536) :: byte)
           + 16777216 * unat (word_of_int (v div 16777216) :: byte))
          = v mod 256 + 256 * ((v div 256) mod 256) + 65536 * ((v div 65536) mod 256)
              + 16777216 * (v div 16777216)"
    by (simp only: of_nat_add of_nat_mult int_unat_byte of_nat_numeral top)
  also have "\<dots> = v mod 256 + 256 * ((v div 256) mod 256
                + 256 * ((v div 65536) mod 256 + 256 * (v div 16777216)))"
    by (simp only: distrib_left mult.assoc [symmetric])
  also have "\<dots> = v" by (simp only: e2 e1 e0)
  finally show ?thesis .
qed

lemma patch_length: "off + length bs \<le> length buf \<Longrightarrow> length (patch buf off bs) = length buf"
  by (simp add: patch_def)

lemma patch_nth:
  assumes "off + length bs \<le> length buf" and "j < length buf"
  shows "patch buf off bs ! j = (if off \<le> j \<and> j < off + length bs then bs ! (j - off) else buf ! j)"
proof -
  consider "j < off" | "off \<le> j" "j < off + length bs" | "off + length bs \<le> j" by linarith
  then show ?thesis
  proof cases
    case 1
    then show ?thesis using assms by (simp add: patch_def nth_append)
  next
    case 2
    then have "j - off < length bs" by linarith
    then show ?thesis using 2 assms by (simp add: patch_def nth_append)
  next
    case 3
    then have a: "\<not> j < off" "\<not> j - off < length bs" by linarith+
    have "off + length bs + (j - off - length bs) = j" using 3 by linarith
    then show ?thesis using 3 a assms by (simp add: patch_def nth_append)
  qed
qed

lemma pack_into_eq_Inr:
  "pack_into fs off buf = Inr buf' \<longleftrightarrow>
     (\<exists>bs. pack fs = Inr bs \<and> off + length bs \<le> length buf \<and> buf' = patch buf off bs)"
  by (auto simp: pack_into_def patch_def then_do_eq_Inr split: if_splits)

lemma pack_Nil_eq: "pack [] = Inr bs \<longleftrightarrow> bs = []"
  by auto

lemma pack_I_eq:
  "pack (I v # fs) = Inr bs \<longleftrightarrow>
     0 \<le> v \<and> v < 4294967296 \<and>
     (\<exists>rest. pack fs = Inr rest \<and>
        bs = word_of_int v # word_of_int (v div 256) # word_of_int (v div 65536)
               # word_of_int (v div 16777216) # rest)"
  by (auto simp: le_bytes_4 then_do_eq_Inr split: if_splits)

lemma pack_H_eq:
  "pack (H v # fs) = Inr bs \<longleftrightarrow>
     0 \<le> v \<and> v < 65536 \<and>
     (\<exists>rest. pack fs = Inr rest \<and> bs = word_of_int v # word_of_int (v div 256) # rest)"
  by (auto simp: le_bytes_2 then_do_eq_Inr split: if_splits)

lemma pack_B_eq:
  "pack (B v # fs) = Inr bs \<longleftrightarrow>
     0 \<le> v \<and> v < 256 \<and> (\<exists>rest. pack fs = Inr rest \<and> bs = word_of_int v # rest)"
  by (auto simp: le_bytes_1 then_do_eq_Inr split: if_splits)

lemma pack_S_eq:
  "pack (S n s # fs) = Inr bs \<longleftrightarrow>
     (\<exists>rest. pack fs = Inr rest \<and> bs = take n (s @ replicate n 0) @ rest)"
  by (auto simp: then_do_eq_Inr)

lemmas pack_eqs = pack_Nil_eq pack_I_eq pack_H_eq pack_B_eq pack_S_eq

declare pack.simps [simp del]

lemma u16_at_bytes:
  assumes "0 \<le> v" "v < 65536" "buf ! off = word_of_int v" "buf ! (off + 1) = word_of_int (v div 256)"
  shows "int (u16_at buf off) = v"
  unfolding u16_at_def assms(3,4) using assms(1,2) by (rule u16_value)

lemma u32_at_bytes:
  assumes "0 \<le> v" "v < 4294967296" "buf ! off = word_of_int v"
    "buf ! (off + 1) = word_of_int (v div 256)" "buf ! (off + 2) = word_of_int (v div 65536)"
    "buf ! (off + 3) = word_of_int (v div 16777216)"
  shows "int (u32_at buf off) = v"
  unfolding u32_at_def assms(3,4,5,6) using assms(1,2) by (rule u32_value)


section \<open>The inode records\<close>

lemma pack_into_total:
  assumes "pack fs = Inr bs" and "off + length bs \<le> length buf"
  shows "pack_into fs off buf = Inr (patch buf off bs)"
  using assms by (simp add: pack_into_eq_Inr)

lemma pack_into_length:
  assumes "pack_into fs off buf = Inr buf'"
  shows "length buf' = length buf"
  using assms by (auto simp: pack_into_eq_Inr patch_length)

lemma pack_I_single:
  "0 \<le> v \<Longrightarrow> v < 4294967296 \<Longrightarrow> \<exists>bs. pack [I v] = Inr bs \<and> length bs = 4"
  by (simp add: pack_eqs)

lemma pack_H_single:
  "0 \<le> v \<Longrightarrow> v < 65536 \<Longrightarrow> \<exists>bs. pack [H v] = Inr bs \<and> length bs = 2"
  by (simp add: pack_eqs)

lemma pack_into_I_total:
  assumes "0 \<le> v" "v < 4294967296" "off + 4 \<le> length buf"
  shows "\<exists>buf'. pack_into [I v] off buf = Inr buf' \<and> length buf' = length buf"
proof -
  from pack_I_single [OF assms(1,2)] obtain bs where bs: "pack [I v] = Inr bs" "length bs = 4"
    by blast
  with assms(3) have "pack_into [I v] off buf = Inr (patch buf off bs)"
    by (intro pack_into_total) simp_all
  then show ?thesis using pack_into_length by blast
qed

lemma pack_into_H_total:
  assumes "0 \<le> v" "v < 65536" "off + 2 \<le> length buf"
  shows "\<exists>buf'. pack_into [H v] off buf = Inr buf' \<and> length buf' = length buf"
proof -
  from pack_H_single [OF assms(1,2)] obtain bs where bs: "pack [H v] = Inr bs" "length bs = 2"
    by blast
  with assms(3) have "pack_into [H v] off buf = Inr (patch buf off bs)"
    by (intro pack_into_total) simp_all
  then show ?thesis using pack_into_length by blast
qed

lemma dir_inode_total:
  assumes "44 \<le> INODE_SIZE P" "BLOCK_SIZE P < 4294967296" "blk < 4294967296"
    "0 \<le> links" "links < 65536"
  shows "\<exists>b. dir_inode P links blk = Inr b"
proof -
  obtain b1 where b1: "pack_into [H 0x41ED] 0 (replicate (INODE_SIZE P) 0) = Inr b1"
    "length b1 = INODE_SIZE P"
    using pack_into_H_total [of "0x41ED" 0 "replicate (INODE_SIZE P) 0"] assms(1) by auto
  obtain b2 where b2: "pack_into [I (int (BLOCK_SIZE P))] 4 b1 = Inr b2" "length b2 = INODE_SIZE P"
    using pack_into_I_total [of "int (BLOCK_SIZE P)" 4 b1] assms(1,2) b1(2) by auto
  obtain b3 where b3: "pack_into [I 2] 28 b2 = Inr b3" "length b3 = INODE_SIZE P"
    using pack_into_I_total [of 2 28 b2] assms(1) b2(2) by auto
  obtain b4 where b4: "pack_into [H links] 26 b3 = Inr b4" "length b4 = INODE_SIZE P"
    using pack_into_H_total [of links 26 b3] assms(1,4,5) b3(2) by auto
  obtain b where b: "pack_into [I (int blk)] 40 b4 = Inr b"
    using pack_into_I_total [of "int blk" 40 b4] assms(1,3) b4(2) by auto
  show ?thesis unfolding dir_inode_def by (simp add: b1 b2 b3 b4 b)
qed




section \<open>The directory blocks\<close>

lemma patch_zeros:
  assumes "length pre \<le> off" and "off + length bs \<le> length pre + n"
  shows "patch (pre @ replicate n 0) off bs
           = (pre @ replicate (off - length pre) 0 @ bs)
               @ replicate (length pre + n - (off + length bs)) 0"
proof -
  have "off - length pre \<le> n" using assms by linarith
  then have "take off (pre @ replicate n 0) = pre @ replicate (off - length pre) 0"
    using assms(1) by (simp add: min_def)
  moreover have "drop (off + length bs) (pre @ replicate n 0)
                   = replicate (length pre + n - (off + length bs)) 0"
    using assms by simp
  ultimately show ?thesis by (simp add: patch_def)
qed

lemma u16_of_int:
  assumes "0 \<le> v" "v < 65536"
  shows "unat (word_of_int v :: byte) + 256 * unat (word_of_int (v div 256) :: byte) = nat v"
  using u16_value [OF assms] by linarith

lemma root_block_bytes:
  assumes "42 \<le> BLOCK_SIZE P" "BLOCK_SIZE P \<le> 65547"
  shows "root_block P
           = Inr ([2, 0, 0, 0, 12, 0, 1, 2, of_char CHR ''.'', 0, 0, 0,
                   2, 0, 0, 0, 12, 0, 2, 2, of_char CHR ''.'', of_char CHR ''.'', 0, 0,
                   11, 0, 0, 0, word_of_int (int (BLOCK_SIZE P) - 24),
                   word_of_int ((int (BLOCK_SIZE P) - 24) div 256), 10, 2]
                  @ bytes_of ''lost+found'' @ replicate (BLOCK_SIZE P - 42) 0)"
proof -
  let ?z = "replicate (BLOCK_SIZE P) (0::byte)"
  let ?e1 = "[2, 0, 0, 0, 12, 0, 1, 2, of_char CHR ''.''] :: byte list"
  let ?e2 = "[2, 0, 0, 0, 12, 0, 2, 2, of_char CHR ''.'', of_char CHR ''.''] :: byte list"
  let ?e3 = "[11, 0, 0, 0, word_of_int (int (BLOCK_SIZE P) - 24),
              word_of_int ((int (BLOCK_SIZE P) - 24) div 256), 10, 2]
             @ bytes_of ''lost+found'' :: byte list"
  have p1: "pack [I 2, H 12, B 1, B 2, S 1 (bytes_of ''.'')] = Inr ?e1"
    by (simp add: pack_eqs bytes_of_def)
  have p2: "pack [I 2, H 12, B 2, B 2, S 2 (bytes_of ''..'')] = Inr ?e2"
    by (simp add: pack_eqs bytes_of_def)
  have p3: "pack [I 11, H (int (BLOCK_SIZE P) - 24), B 10, B 2, S 10 (bytes_of ''lost+found'')]
              = Inr ?e3"
    using assms by (simp add: pack_eqs bytes_of_def)
  have s1: "pack_into [I 2, H 12, B 1, B 2, S 1 (bytes_of ''.'')] 0 ?z
              = Inr (?e1 @ replicate (BLOCK_SIZE P - 9) 0)"
    using pack_into_total [OF p1, of 0 ?z] patch_zeros [of "[]" 0 ?e1 "BLOCK_SIZE P"] assms
    by simp
  have s2: "pack_into [I 2, H 12, B 2, B 2, S 2 (bytes_of ''..'')] 12
              (?e1 @ replicate (BLOCK_SIZE P - 9) 0)
              = Inr ((?e1 @ replicate 3 0 @ ?e2) @ replicate (BLOCK_SIZE P - 22) 0)"
    using pack_into_total [OF p2, of 12 "?e1 @ replicate (BLOCK_SIZE P - 9) 0"]
      patch_zeros [of ?e1 12 ?e2 "BLOCK_SIZE P - 9"] assms
    by simp
  have s3: "pack_into [I 11, H (int (BLOCK_SIZE P) - 24), B 10, B 2, S 10 (bytes_of ''lost+found'')]
              24 ((?e1 @ replicate 3 0 @ ?e2) @ replicate (BLOCK_SIZE P - 22) 0)
              = Inr (((?e1 @ replicate 3 0 @ ?e2) @ replicate 2 0 @ ?e3)
                       @ replicate (BLOCK_SIZE P - 42) 0)"
    using pack_into_total [OF p3, of 24 "(?e1 @ replicate 3 0 @ ?e2) @ replicate (BLOCK_SIZE P - 22) 0"]
      patch_zeros [of "?e1 @ replicate 3 0 @ ?e2" 24 ?e3 "BLOCK_SIZE P - 22"] assms
    by (simp add: bytes_of_def)
  have r3: "replicate 3 (0::byte) = [0, 0, 0]" "replicate 2 (0::byte) = [0, 0]"
    by (simp_all add: numeral_eq_Suc)
  show ?thesis
    unfolding root_block_def by (simp only: s1 s2 s3 then_do_Inr) (simp add: r3)
qed

lemma lf_block_bytes:
  assumes "42 \<le> BLOCK_SIZE P" "BLOCK_SIZE P \<le> 65547"
  shows "lf_block P
           = Inr ([11, 0, 0, 0, 12, 0, 1, 2, of_char CHR ''.'', 0, 0, 0,
                   2, 0, 0, 0, word_of_int (int (BLOCK_SIZE P) - 12),
                   word_of_int ((int (BLOCK_SIZE P) - 12) div 256), 2, 2,
                   of_char CHR ''.'', of_char CHR ''.'']
                  @ replicate (BLOCK_SIZE P - 22) 0)"
proof -
  let ?z = "replicate (BLOCK_SIZE P) (0::byte)"
  let ?e1 = "[11, 0, 0, 0, 12, 0, 1, 2, of_char CHR ''.''] :: byte list"
  let ?e2 = "[2, 0, 0, 0, word_of_int (int (BLOCK_SIZE P) - 12),
              word_of_int ((int (BLOCK_SIZE P) - 12) div 256), 2, 2,
              of_char CHR ''.'', of_char CHR ''.''] :: byte list"
  have p1: "pack [I 11, H 12, B 1, B 2, S 1 (bytes_of ''.'')] = Inr ?e1"
    by (simp add: pack_eqs bytes_of_def)
  have p2: "pack [I 2, H (int (BLOCK_SIZE P) - 12), B 2, B 2, S 2 (bytes_of ''..'')] = Inr ?e2"
    using assms by (simp add: pack_eqs bytes_of_def)
  have s1: "pack_into [I 11, H 12, B 1, B 2, S 1 (bytes_of ''.'')] 0 ?z
              = Inr (?e1 @ replicate (BLOCK_SIZE P - 9) 0)"
    using pack_into_total [OF p1, of 0 ?z] patch_zeros [of "[]" 0 ?e1 "BLOCK_SIZE P"] assms
    by simp
  have s2: "pack_into [I 2, H (int (BLOCK_SIZE P) - 12), B 2, B 2, S 2 (bytes_of ''..'')] 12
              (?e1 @ replicate (BLOCK_SIZE P - 9) 0)
              = Inr ((?e1 @ replicate 3 0 @ ?e2) @ replicate (BLOCK_SIZE P - 22) 0)"
    using pack_into_total [OF p2, of 12 "?e1 @ replicate (BLOCK_SIZE P - 9) 0"]
      patch_zeros [of ?e1 12 ?e2 "BLOCK_SIZE P - 9"] assms
    by simp
  have r3: "replicate 3 (0::byte) = [0, 0, 0]" by (simp add: numeral_eq_Suc)
  show ?thesis
    unfolding lf_block_def by (simp only: s1 s2 then_do_Inr) (simp add: r3)
qed

text \<open>
  C5: the root directory block holds, from offset 0, the entry \<open>.\<close> (inode 2, name
  length 1, record length 12), the entry \<open>..\<close> (inode 2, name length 2, record length
  12) and the entry \<open>lost+found\<close> (inode 11, name length 10) whose record length is
  the rest of the block (1024 - 24 = 1000); the block of lost+found holds \<open>.\<close> (inode
  11, record length 12) and \<open>..\<close> (inode 2) with the rest of the block as record
  length (1024 - 12 = 1012).  Every entry has the file type 2 of a directory, and in
  each block the record lengths add up to the block size.
\<close>

theorem directory_blocks:
  assumes "42 \<le> BLOCK_SIZE P" "BLOCK_SIZE P \<le> 65547"
  shows "\<exists>rb lb. root_block P = Inr rb \<and> lf_block P = Inr lb
           \<and> length rb = BLOCK_SIZE P \<and> length lb = BLOCK_SIZE P
           \<and> dirent_at rb 0 = (2, 12, 1, 2, bytes_of ''.'')
           \<and> dirent_at rb 12 = (2, 12, 2, 2, bytes_of ''..'')
           \<and> dirent_at rb 24 = (11, BLOCK_SIZE P - 24, 10, 2, bytes_of ''lost+found'')
           \<and> u16_at rb 4 + u16_at rb 16 + u16_at rb 28 = BLOCK_SIZE P
           \<and> dirent_at lb 0 = (11, 12, 1, 2, bytes_of ''.'')
           \<and> dirent_at lb 12 = (2, BLOCK_SIZE P - 12, 2, 2, bytes_of ''..'')
           \<and> u16_at lb 4 + u16_at lb 16 = BLOCK_SIZE P"
proof -
  define lo hi where "lo = (word_of_int (int (BLOCK_SIZE P) - 24) :: byte)"
    and "hi = (word_of_int ((int (BLOCK_SIZE P) - 24) div 256) :: byte)"
  define lo' hi' where "lo' = (word_of_int (int (BLOCK_SIZE P) - 12) :: byte)"
    and "hi' = (word_of_int ((int (BLOCK_SIZE P) - 12) div 256) :: byte)"
  have r24: "unat lo + 256 * unat hi = BLOCK_SIZE P - 24"
    unfolding lo_def hi_def using u16_of_int [of "int (BLOCK_SIZE P) - 24"] assms by simp
  have r12: "unat lo' + 256 * unat hi' = BLOCK_SIZE P - 12"
    unfolding lo'_def hi'_def using u16_of_int [of "int (BLOCK_SIZE P) - 12"] assms by simp
  have rb: "root_block P
           = Inr ([2, 0, 0, 0, 12, 0, 1, 2, of_char CHR ''.'', 0, 0, 0,
                   2, 0, 0, 0, 12, 0, 2, 2, of_char CHR ''.'', of_char CHR ''.'', 0, 0,
                   11, 0, 0, 0, lo, hi, 10, 2]
                  @ bytes_of ''lost+found'' @ replicate (BLOCK_SIZE P - 42) 0)"
    unfolding lo_def hi_def by (rule root_block_bytes [OF assms])
  have lb: "lf_block P
           = Inr ([11, 0, 0, 0, 12, 0, 1, 2, of_char CHR ''.'', 0, 0, 0,
                   2, 0, 0, 0, lo', hi', 2, 2, of_char CHR ''.'', of_char CHR ''.'']
                  @ replicate (BLOCK_SIZE P - 22) 0)"
    unfolding lo'_def hi'_def by (rule lf_block_bytes [OF assms])
  have len: "42 + (BLOCK_SIZE P - 42) = BLOCK_SIZE P" "22 + (BLOCK_SIZE P - 22) = BLOCK_SIZE P"
    "24 + (BLOCK_SIZE P - 24) = BLOCK_SIZE P" "12 + (BLOCK_SIZE P - 12) = BLOCK_SIZE P"
    using assms by simp_all
  show ?thesis
    unfolding rb lb
    by (simp add: dirent_at_def u32_at_def u16_at_def bytes_of_def r24 r12 len)
      (use assms in auto)
qed

theorem directory_blocks_witness:
  "\<exists>rb lb. root_block default_params = Inr rb \<and> lf_block default_params = Inr lb
     \<and> length rb = 1024 \<and> length lb = 1024
     \<and> dirent_at rb 0 = (2, 12, 1, 2, bytes_of ''.'')
     \<and> dirent_at rb 12 = (2, 12, 2, 2, bytes_of ''..'')
     \<and> dirent_at rb 24 = (11, 1000, 10, 2, bytes_of ''lost+found'')
     \<and> u16_at rb 4 + u16_at rb 16 + u16_at rb 28 = 1024
     \<and> dirent_at lb 0 = (11, 12, 1, 2, bytes_of ''.'')
     \<and> dirent_at lb 12 = (2, 1012, 2, 2, bytes_of ''..'')
     \<and> u16_at lb 4 + u16_at lb 16 = 1024"
proof -
  have "42 \<le> BLOCK_SIZE default_params" "BLOCK_SIZE default_params \<le> 65547"
    by (simp_all add: default_params_def)
  from directory_blocks [OF this] show ?thesis by (simp add: default_params_def)
qed

section \<open>The superblock\<close>

lemma sb_data_fields:
  assumes "sb_data P t1 t2 gs = Inr sb"
  shows "length sb = 1024"
    and "u32_at sb 0 = INODE_COUNT P"
    and "u32_at sb 4 = BLOCK_COUNT P"
    and "int (u32_at sb 12) = total_free_blocks gs"
    and "int (u32_at sb 16) = total_free_inodes gs"
    and "u32_at sb 20 = 1"
    and "u32_at sb 24 = 0"
    and "int (u32_at sb 44) = t1"
    and "int (u32_at sb 48) = t2"
    and "u16_at sb 56 = 0xEF53"
    and "u16_at sb 58 = 1"
    and "u16_at sb 60 = 1"
    and "u32_at sb 76 = 0"
proof -
  from assms obtain sb1 sb2 sb3 sb4 sb5 sb6 where
    s1: "pack_into
        [I (int (INODE_COUNT P)), I (int (BLOCK_COUNT P)), I 0,
         I (int (BLOCK_COUNT P) - 1 - int (GROUP_COUNT P) * 1 - 1),
         I (int (INODE_COUNT P) - 11),
         I 1, I 0, I 0,
         I (int (BLOCKS_PER_GROUP P)), I (int (BLOCKS_PER_GROUP P)),
         I (int (INODES_PER_GROUP P)),
         I t1, I t2, H 0, H 20] 0 (replicate 1024 0) = Inr sb1"
    and s2: "pack_into [H 0xEF53] 56 sb1 = Inr sb2"
    and s3: "pack_into [H 1] 58 sb2 = Inr sb3"
    and s4: "pack_into [H 1] 60 sb3 = Inr sb4"
    and s5: "pack_into [I 0] 76 sb4 = Inr sb5"
    and s6: "pack_into [I (total_free_blocks gs)] 12 sb5 = Inr sb6"
    and s7: "pack_into [I (total_free_inodes gs)] 16 sb6 = Inr sb"
    unfolding sb_data_def create_superblock_def then_do_eq_Inr by blast
  from s1 obtain hdr where hdr: "pack
        [I (int (INODE_COUNT P)), I (int (BLOCK_COUNT P)), I 0,
         I (int (BLOCK_COUNT P) - 1 - int (GROUP_COUNT P) * 1 - 1),
         I (int (INODE_COUNT P) - 11),
         I 1, I 0, I 0,
         I (int (BLOCKS_PER_GROUP P)), I (int (BLOCKS_PER_GROUP P)),
         I (int (INODES_PER_GROUP P)),
         I t1, I t2, H 0, H 20] = Inr hdr"
    and sb1: "sb1 = patch (replicate 1024 0) 0 hdr"
    by (auto simp: pack_into_eq_Inr)
  from hdr have lh: "length hdr = 56"
    and r: "int (INODE_COUNT P) < 4294967296" "int (BLOCK_COUNT P) < 4294967296"
      "0 \<le> t1" "t1 < 4294967296" "0 \<le> t2" "t2 < 4294967296"
    and h: "hdr ! 0 = word_of_int (int (INODE_COUNT P))"
      "hdr ! 1 = word_of_int (int (INODE_COUNT P) div 256)"
      "hdr ! 2 = word_of_int (int (INODE_COUNT P) div 65536)"
      "hdr ! 3 = word_of_int (int (INODE_COUNT P) div 16777216)"
      "hdr ! 4 = word_of_int (int (BLOCK_COUNT P))"
      "hdr ! 5 = word_of_int (int (BLOCK_COUNT P) div 256)"
      "hdr ! 6 = word_of_int (int (BLOCK_COUNT P) div 65536)"
      "hdr ! 7 = word_of_int (int (BLOCK_COUNT P) div 16777216)"
      "hdr ! 20 = word_of_int 1" "hdr ! 21 = word_of_int (1 div 256)"
      "hdr ! 22 = word_of_int (1 div 65536)" "hdr ! 23 = word_of_int (1 div 16777216)"
      "hdr ! 24 = word_of_int 0" "hdr ! 25 = word_of_int (0 div 256)"
      "hdr ! 26 = word_of_int (0 div 65536)" "hdr ! 27 = word_of_int (0 div 16777216)"
      "hdr ! 44 = word_of_int t1" "hdr ! 45 = word_of_int (t1 div 256)"
      "hdr ! 46 = word_of_int (t1 div 65536)" "hdr ! 47 = word_of_int (t1 div 16777216)"
      "hdr ! 48 = word_of_int t2" "hdr ! 49 = word_of_int (t2 div 256)"
      "hdr ! 50 = word_of_int (t2 div 65536)" "hdr ! 51 = word_of_int (t2 div 16777216)"
    by (auto simp: pack_eqs)
  have h1: "hdr ! Suc 0 = word_of_int (int (INODE_COUNT P) div 256)"
    "hdr ! Suc (Suc 0) = word_of_int (int (INODE_COUNT P) div 65536)"
    using h(2,3) by (simp_all add: numeral_2_eq_2)
  define mg where "mg = [word_of_int 0xEF53, word_of_int (0xEF53 div 256) :: byte]"
  define one where "one = [word_of_int 1, word_of_int (1 div 256) :: byte]"
  define rev where "rev = [word_of_int 0, word_of_int (0 div 256),
     word_of_int (0 div 65536), word_of_int (0 div 16777216) :: byte]"
  define fb where "fb = [word_of_int (total_free_blocks gs),
     word_of_int (total_free_blocks gs div 256), word_of_int (total_free_blocks gs div 65536),
     word_of_int (total_free_blocks gs div 16777216) :: byte]"
  define fi where "fi = [word_of_int (total_free_inodes gs),
     word_of_int (total_free_inodes gs div 256), word_of_int (total_free_inodes gs div 65536),
     word_of_int (total_free_inodes gs div 16777216) :: byte]"
  have len [simp]: "length mg = 2" "length one = 2" "length rev = 4" "length fb = 4" "length fi = 4"
    by (simp_all add: mg_def one_def rev_def fb_def fi_def)
  have l1: "length sb1 = 1024" unfolding sb1 by (simp add: patch_length lh)
  from s2 have sb2: "sb2 = patch sb1 56 mg" by (auto simp: pack_into_eq_Inr pack_eqs mg_def)
  have l2: "length sb2 = 1024" unfolding sb2 by (simp add: patch_length l1)
  from s3 have sb3: "sb3 = patch sb2 58 one" by (auto simp: pack_into_eq_Inr pack_eqs one_def)
  have l3: "length sb3 = 1024" unfolding sb3 by (simp add: patch_length l2)
  from s4 have sb4: "sb4 = patch sb3 60 one" by (auto simp: pack_into_eq_Inr pack_eqs one_def)
  have l4: "length sb4 = 1024" unfolding sb4 by (simp add: patch_length l3)
  from s5 have sb5: "sb5 = patch sb4 76 rev" by (auto simp: pack_into_eq_Inr pack_eqs rev_def)
  have l5: "length sb5 = 1024" unfolding sb5 by (simp add: patch_length l4)
  from s6 have sb6: "sb6 = patch sb5 12 fb"
    and rfb: "0 \<le> total_free_blocks gs" "total_free_blocks gs < 4294967296"
    by (auto simp: pack_into_eq_Inr pack_eqs fb_def)
  have l6: "length sb6 = 1024" unfolding sb6 by (simp add: patch_length l5)
  from s7 have sb7: "sb = patch sb6 16 fi"
    and rfi: "0 \<le> total_free_inodes gs" "total_free_inodes gs < 4294967296"
    by (auto simp: pack_into_eq_Inr pack_eqs fi_def)
  show l7: "length sb = 1024" unfolding sb7 by (simp add: patch_length l6)
  have nth: "sb ! j =
      (if 16 \<le> j \<and> j < 20 then fi ! (j - 16)
       else if 12 \<le> j \<and> j < 16 then fb ! (j - 12)
       else if 76 \<le> j \<and> j < 80 then rev ! (j - 76)
       else if 60 \<le> j \<and> j < 62 then one ! (j - 60)
       else if 58 \<le> j \<and> j < 60 then one ! (j - 58)
       else if 56 \<le> j \<and> j < 58 then mg ! (j - 56)
       else if j < 56 then hdr ! j
       else 0)" if "j < 1024" for j
    unfolding sb7 sb6 sb5 sb4 sb3 sb2 sb1 using that
    by (simp add: patch_nth patch_length lh)
  have "int (u32_at sb 0) = int (INODE_COUNT P)"
    by (rule u32_at_bytes) (use r in \<open>simp_all add: nth h h1\<close>)
  then show "u32_at sb 0 = INODE_COUNT P" by simp
  have "int (u32_at sb 4) = int (BLOCK_COUNT P)"
    by (rule u32_at_bytes) (use r in \<open>simp_all add: nth h\<close>)
  then show "u32_at sb 4 = BLOCK_COUNT P" by simp
  show "int (u32_at sb 12) = total_free_blocks gs"
    by (rule u32_at_bytes) (use rfb in \<open>simp_all add: nth fb_def\<close>)
  show "int (u32_at sb 16) = total_free_inodes gs"
    by (rule u32_at_bytes) (use rfi in \<open>simp_all add: nth fi_def\<close>)
  have "int (u32_at sb 20) = 1"
    by (rule u32_at_bytes) (simp_all add: nth h)
  then show "u32_at sb 20 = 1" by simp
  have "int (u32_at sb 24) = 0"
    by (rule u32_at_bytes) (simp_all add: nth h)
  then show "u32_at sb 24 = 0" by simp
  show "int (u32_at sb 44) = t1"
    by (rule u32_at_bytes) (use r in \<open>simp_all add: nth h\<close>)
  show "int (u32_at sb 48) = t2"
    by (rule u32_at_bytes) (use r in \<open>simp_all add: nth h\<close>)
  have "int (u16_at sb 56) = 0xEF53"
    by (rule u16_at_bytes) (simp_all add: nth mg_def)
  then show "u16_at sb 56 = 0xEF53" by simp
  have "int (u16_at sb 58) = 1"
    by (rule u16_at_bytes) (simp_all add: nth one_def)
  then show "u16_at sb 58 = 1" by simp
  have "int (u16_at sb 60) = 1"
    by (rule u16_at_bytes) (simp_all add: nth one_def)
  then show "u16_at sb 60 = 1" by simp
  have "int (u32_at sb 76) = 0"
    by (rule u32_at_bytes) (simp_all add: nth rev_def)
  then show "u32_at sb 76 = 0" by simp
qed

section \<open>The script runs to its end\<close>

lemma serializable_default: "serializable default_params"
  by (simp add: serializable_def default_params_def metadata_blocks_def inode_table_blocks_def
      INODE_COUNT_def GROUP_COUNT_def BLOCK_COUNT_def)

lemma create_superblock_total:
  assumes "INODE_COUNT P < 4294967296" "BLOCK_COUNT P < 4294967296"
    "GROUP_COUNT P + 2 \<le> BLOCK_COUNT P" "11 \<le> INODE_COUNT P"
    "BLOCKS_PER_GROUP P < 4294967296" "INODES_PER_GROUP P < 4294967296"
    "0 \<le> t1" "t1 < 4294967296" "0 \<le> t2" "t2 < 4294967296"
  shows "\<exists>sb. create_superblock P t1 t2 = Inr sb \<and> length sb = 1024"
proof -
  have "\<exists>hdr. pack
        [I (int (INODE_COUNT P)), I (int (BLOCK_COUNT P)), I 0,
         I (int (BLOCK_COUNT P) - 1 - int (GROUP_COUNT P) * 1 - 1),
         I (int (INODE_COUNT P) - 11),
         I 1, I 0, I 0,
         I (int (BLOCKS_PER_GROUP P)), I (int (BLOCKS_PER_GROUP P)),
         I (int (INODES_PER_GROUP P)),
         I t1, I t2, H 0, H 20] = Inr hdr \<and> length hdr = 56"
    using assms by (simp add: pack_eqs)
  then obtain hdr where hdr: "pack
        [I (int (INODE_COUNT P)), I (int (BLOCK_COUNT P)), I 0,
         I (int (BLOCK_COUNT P) - 1 - int (GROUP_COUNT P) * 1 - 1),
         I (int (INODE_COUNT P) - 11),
         I 1, I 0, I 0,
         I (int (BLOCKS_PER_GROUP P)), I (int (BLOCKS_PER_GROUP P)),
         I (int (INODES_PER_GROUP P)),
         I t1, I t2, H 0, H 20] = Inr hdr" "length hdr = 56"
    by blast
  have s1: "pack_into
        [I (int (INODE_COUNT P)), I (int (BLOCK_COUNT P)), I 0,
         I (int (BLOCK_COUNT P) - 1 - int (GROUP_COUNT P) * 1 - 1),
         I (int (INODE_COUNT P) - 11),
         I 1, I 0, I 0,
         I (int (BLOCKS_PER_GROUP P)), I (int (BLOCKS_PER_GROUP P)),
         I (int (INODES_PER_GROUP P)),
         I t1, I t2, H 0, H 20] 0 (replicate 1024 0) = Inr (patch (replicate 1024 0) 0 hdr)"
    by (rule pack_into_total [OF hdr(1)]) (simp add: hdr(2))
  have l1: "length (patch (replicate 1024 0) 0 hdr) = 1024"
    by (simp add: patch_length hdr(2))
  obtain sb2 where s2: "pack_into [H 0xEF53] 56 (patch (replicate 1024 0) 0 hdr) = Inr sb2"
    and l2: "length sb2 = 1024"
    using pack_into_H_total [of "0xEF53" 56 "patch (replicate 1024 0) 0 hdr"] l1 by auto
  obtain sb3 where s3: "pack_into [H 1] 58 sb2 = Inr sb3" and l3: "length sb3 = 1024"
    using pack_into_H_total [of 1 58 sb2] l2 by auto
  obtain sb4 where s4: "pack_into [H 1] 60 sb3 = Inr sb4" and l4: "length sb4 = 1024"
    using pack_into_H_total [of 1 60 sb3] l3 by auto
  obtain sb5 where s5: "pack_into [I 0] 76 sb4 = Inr sb5" and l5: "length sb5 = 1024"
    using pack_into_I_total [of 0 76 sb4] l4 by auto
  have "create_superblock P t1 t2 = Inr sb5"
    unfolding create_superblock_def by (simp only: s1 s2 s3 s4 s5 then_do_Inr)
  with l5 show ?thesis by blast
qed

lemma sb_data_total:
  assumes "\<exists>sb. create_superblock P t1 t2 = Inr sb \<and> length sb = 1024"
    and "0 \<le> total_free_blocks gs" "total_free_blocks gs < 4294967296"
    and "0 \<le> total_free_inodes gs" "total_free_inodes gs < 4294967296"
  shows "\<exists>sb. sb_data P t1 t2 gs = Inr sb"
proof -
  from assms(1) obtain sb0 where s0: "create_superblock P t1 t2 = Inr sb0" "length sb0 = 1024"
    by blast
  obtain sb1 where s1: "pack_into [I (total_free_blocks gs)] 12 sb0 = Inr sb1"
    and l1: "length sb1 = 1024"
    using pack_into_I_total [of "total_free_blocks gs" 12 sb0] assms(2,3) s0(2) by auto
  obtain sb2 where s2: "pack_into [I (total_free_inodes gs)] 16 sb1 = Inr sb2"
    using pack_into_I_total [of "total_free_inodes gs" 16 sb1] assms(4,5) l1 by auto
  show ?thesis unfolding sb_data_def by (simp add: s0 s1 s2)
qed

lemma for_each_total:
  assumes "\<And>x s. x \<in> set xs \<Longrightarrow> Inv s \<Longrightarrow> \<exists>s'. f x s = Inr s' \<and> Inv s'"
    and "Inv s"
  shows "\<exists>s'. for_each f xs s = Inr s' \<and> Inv s'"
  using assms
proof (induction xs arbitrary: s)
  case Nil
  then show ?case by simp
next
  case (Cons x xs)
  from Cons.prems obtain s1 where s1: "f x s = Inr s1" "Inv s1" by (meson list.set_intros(1))
  from Cons.IH [OF _ s1(2)] Cons.prems(1) obtain s' where
    "for_each f xs s1 = Inr s'" "Inv s'" by (meson list.set_intros(2))
  then show ?case using s1(1) by auto
qed

lemma sum_list_bounds:
  fixes f :: "'a \<Rightarrow> int"
  assumes "\<And>x. x \<in> set xs \<Longrightarrow> 0 \<le> f x \<and> f x \<le> c"
  shows "0 \<le> sum_list (map f xs) \<and> sum_list (map f xs) \<le> int (length xs) * c"
  using assms
proof (induction xs)
  case Nil
  then show ?case by simp
next
  case (Cons x xs)
  then have "0 \<le> f x" "f x \<le> c"
    and "0 \<le> sum_list (map f xs)" "sum_list (map f xs) \<le> int (length xs) * c"
    by auto
  then show ?case by (simp add: algebra_simps)
qed

lemma card_inodes_in_le:
  assumes "0 < INODES_PER_GROUP P"
  shows "card (inodes_in P T k) \<le> INODES_PER_GROUP P"
proof -
  have "(\<lambda>j. j mod INODES_PER_GROUP P) ` inodes_in P T k \<subseteq> {0..<INODES_PER_GROUP P}"
    using assms by auto
  then have "card ((\<lambda>j. j mod INODES_PER_GROUP P) ` inodes_in P T k) \<le> card {0..<INODES_PER_GROUP P}"
    by (intro card_mono) simp_all
  then show ?thesis using card_inodes_in_image [OF assms, of T k] by simp
qed

lemma after_data_block_le:
  assumes "\<And>k. M k \<le> BLOCKS_PER_GROUP P"
  shows "after_data_block P M j k \<le> BLOCKS_PER_GROUP P"
  using assms [of k] assms [of j] by (simp add: after_data_block_def)

lemma blocks_final_le:
  assumes "metadata_blocks P 0 \<le> BLOCKS_PER_GROUP P"
  shows "blocks_final P k \<le> BLOCKS_PER_GROUP P"
proof -
  have m: "metadata_blocks P j \<le> BLOCKS_PER_GROUP P" for j
    using assms by (simp add: metadata_blocks_def)
  have "blocks_after_root P j \<le> BLOCKS_PER_GROUP P" for j
    unfolding blocks_after_root_def by (rule after_data_block_le) (rule m)
  then show ?thesis unfolding blocks_final_def by (rule after_data_block_le)
qed

lemma dirs_final_range: "0 \<le> dirs_final P k \<and> dirs_final P k \<le> 2"
  by (simp add: dirs_final_def dirs_after_root_def)

lemma data_block_addr_le:
  assumes "k < GROUP_COUNT P"
  shows "data_block_addr P M k \<le> GROUP_COUNT P * BLOCKS_PER_GROUP P"
proof (cases "M k < BLOCKS_PER_GROUP P")
  case True
  then have "data_block_addr P M k \<le> k * BLOCKS_PER_GROUP P + BLOCKS_PER_GROUP P"
    by (simp add: data_block_addr_def)
  also have "\<dots> = Suc k * BLOCKS_PER_GROUP P" by simp
  also have "\<dots> \<le> GROUP_COUNT P * BLOCKS_PER_GROUP P"
    using assms by (intro mult_le_mono1) simp
  finally show ?thesis .
next
  case False
  then show ?thesis by (simp add: data_block_addr_def)
qed

text \<open>What the final groups hold, in the ranges of the descriptor fields.\<close>

lemma final_group_ranges:
  assumes wf: "well_formed P" and ser: "serializable P"
    and ok: "groups_ok P (blocks_final P) (dirs_final P) {0..<11} gs"
    and k: "k < length gs"
  shows "group_id (gs ! k) = k"
    and "int (block_bitmap_blk (gs ! k)) < 4294967296"
    and "int (inode_bitmap_blk (gs ! k)) < 4294967296"
    and "int (inode_table_blk (gs ! k)) < 4294967296"
    and "0 \<le> free_blocks_count (gs ! k)" "free_blocks_count (gs ! k) \<le> int (BLOCKS_PER_GROUP P)"
    and "0 \<le> free_inodes_count (gs ! k)" "free_inodes_count (gs ! k) \<le> int (INODES_PER_GROUP P)"
    and "0 \<le> used_dirs_count (gs ! k)" "used_dirs_count (gs ! k) \<le> 2"
proof -
  from ok k have g: "group_ok P (blocks_final P) (dirs_final P) {0..<11} k (gs ! k)"
    and kg: "k < GROUP_COUNT P"
    by (simp_all add: groups_ok_def)
  from ser have meta: "metadata_blocks P 0 \<le> BLOCKS_PER_GROUP P"
    and big: "GROUP_COUNT P * BLOCKS_PER_GROUP P + 5 < 4294967296"
    by (simp_all add: serializable_def)
  from wf have ipg: "0 < INODES_PER_GROUP P" by (simp add: well_formed_def)
  have "k * BLOCKS_PER_GROUP P \<le> GROUP_COUNT P * BLOCKS_PER_GROUP P"
    using kg by (intro mult_le_mono1) simp
  with big have addr: "k * BLOCKS_PER_GROUP P + 5 < 4294967296" by linarith
  show "group_id (gs ! k) = k" using g by (simp add: group_ok_def)
  have "block_bitmap_blk (gs ! k) \<le> k * BLOCKS_PER_GROUP P + 5"
    "inode_bitmap_blk (gs ! k) \<le> k * BLOCKS_PER_GROUP P + 5"
    "inode_table_blk (gs ! k) \<le> k * BLOCKS_PER_GROUP P + 5"
    using g by (simp_all add: group_ok_def)
  with addr show "int (block_bitmap_blk (gs ! k)) < 4294967296"
    "int (inode_bitmap_blk (gs ! k)) < 4294967296"
    "int (inode_table_blk (gs ! k)) < 4294967296"
    by linarith+
  show "0 \<le> free_blocks_count (gs ! k)" "free_blocks_count (gs ! k) \<le> int (BLOCKS_PER_GROUP P)"
    using g blocks_final_le [OF meta, of k] by (simp_all add: group_ok_def)
  show "0 \<le> free_inodes_count (gs ! k)" "free_inodes_count (gs ! k) \<le> int (INODES_PER_GROUP P)"
    using g card_inodes_in_le [OF ipg, of "{0..<11}" k] by (simp_all add: group_ok_def)
  show "0 \<le> used_dirs_count (gs ! k)" "used_dirs_count (gs ! k) \<le> 2"
    using g dirs_final_range [of P k] by (simp_all add: group_ok_def)
qed

lemma gdt_entry_total:
  assumes "i * 32 + 20 \<le> length gdt"
    and "int (block_bitmap_blk g) < 4294967296" "int (inode_bitmap_blk g) < 4294967296"
      "int (inode_table_blk g) < 4294967296"
    and "0 \<le> free_blocks_count g" "free_blocks_count g < 65536"
    and "0 \<le> free_inodes_count g" "free_inodes_count g < 65536"
    and "0 \<le> used_dirs_count g" "used_dirs_count g < 65536"
  shows "\<exists>gdt'. gdt_entry (i, g) gdt = Inr gdt' \<and> length gdt' = length gdt"
proof -
  have "\<exists>bs. pack [I (int (block_bitmap_blk g)), I (int (inode_bitmap_blk g)),
           I (int (inode_table_blk g)),
           H (free_blocks_count g), H (free_inodes_count g), H (used_dirs_count g), H 0] = Inr bs
         \<and> length bs = 20"
    using assms(2-) by (simp add: pack_eqs)
  then obtain bs where bs: "pack [I (int (block_bitmap_blk g)), I (int (inode_bitmap_blk g)),
           I (int (inode_table_blk g)),
           H (free_blocks_count g), H (free_inodes_count g), H (used_dirs_count g), H 0] = Inr bs"
    "length bs = 20"
    by blast
  have "gdt_entry (i, g) gdt = Inr (patch gdt (i * 32) bs)"
    unfolding gdt_entry_def prod.case
    by (rule pack_into_total [OF bs(1)]) (use assms(1) bs(2) in simp)
  then show ?thesis using assms(1) bs(2) by (simp add: patch_length)
qed

lemma gdt_block_total:
  assumes wf: "well_formed P" and ser: "serializable P"
    and ok: "groups_ok P (blocks_final P) (dirs_final P) {0..<11} gs"
  shows "\<exists>gdt. gdt_block P gs = Inr gdt \<and> length gdt = BLOCK_SIZE P"
proof -
  from ser have lim: "BLOCKS_PER_GROUP P \<le> 65535" "INODES_PER_GROUP P \<le> 65535"
    "GROUP_COUNT P * 32 \<le> BLOCK_SIZE P"
    by (simp_all add: serializable_def)
  from ok have len: "length gs = GROUP_COUNT P" by (simp add: groups_ok_def)
  have step: "\<exists>s'. gdt_entry x s = Inr s' \<and> length s' = BLOCK_SIZE P"
    if "x \<in> set (zip [0..<length gs] gs)" "length s = BLOCK_SIZE P" for x s
  proof -
    from that(1) obtain i where i: "i < length gs" "x = (i, gs ! i)"
      by (auto simp: set_zip)
    note r = final_group_ranges [OF wf ser ok i(1)]
    have "i < GROUP_COUNT P" using i(1) len by simp
    then have "i * 32 + 20 \<le> length s" using lim(3) that(2) by simp
    from gdt_entry_total [OF this r(2,3,4) r(5) _ r(7) _ r(9)] r(6,8,10) lim(1,2)
    show ?thesis unfolding i(2) that(2) by simp
  qed
  from for_each_total [of "zip [0..<length gs] gs" "\<lambda>s. length s = BLOCK_SIZE P" gdt_entry
      "replicate (BLOCK_SIZE P) 0", OF step]
  show ?thesis unfolding gdt_block_def by simp
qed

lemma group_writes_total:
  assumes "44 \<le> INODE_SIZE P" "BLOCK_SIZE P < 4294967296"
    "root_data_block L < 4294967296" "lf_data_block L < 4294967296"
  shows "\<exists>ws. group_writes P L g = Inr ws"
proof -
  obtain rb where rb: "root_inode P L = Inr rb"
    unfolding root_inode_def using dir_inode_total [OF assms(1,2,3), of 3] by auto
  obtain lb where lb: "lf_inode P L = Inr lb"
    unfolding lf_inode_def using dir_inode_total [OF assms(1,2,4), of 2] by auto
  show ?thesis unfolding group_writes_def Let_def by (simp add: rb lb)
qed

lemma write_image_total:
  assumes wf: "well_formed P" and ser: "serializable P"
    and ok: "groups_ok P (blocks_final P) (dirs_final P) {0..<11} (groups L)"
    and blk: "root_data_block L < 4294967296" "lf_data_block L < 4294967296"
  shows "\<exists>gdt gws rb lb. write_image P L sb
            = Inr ([(1024, sb), (2 * BLOCK_SIZE P, gdt)] @ concat gws
                   @ [(root_data_block L * BLOCK_SIZE P, rb),
                      (lf_data_block L * BLOCK_SIZE P, lb)])
          \<and> gdt_block P (groups L) = Inr gdt
          \<and> map_err (group_writes P L) (groups L) = Inr gws
          \<and> root_block P = Inr rb \<and> lf_block P = Inr lb"
proof -
  from ser have bs: "42 \<le> BLOCK_SIZE P" "BLOCK_SIZE P \<le> 65547" and isz: "44 \<le> INODE_SIZE P"
    by (simp_all add: serializable_def)
  from gdt_block_total [OF wf ser ok] obtain gdt where gdt: "gdt_block P (groups L) = Inr gdt"
    by blast
  have "BLOCK_SIZE P < 4294967296" using bs(2) by simp
  from group_writes_total [OF isz this blk]
  have "\<exists>y. group_writes P L x = Inr y \<and> True" for x by simp
  from map_err_total [of "groups L" "group_writes P L" "\<lambda>_ _. True", OF this]
  obtain gws where gws: "map_err (group_writes P L) (groups L) = Inr gws" by blast
  from directory_blocks [OF bs] obtain rb lb where
    rb: "root_block P = Inr rb" and lb: "lf_block P = Inr lb"
    by blast
  show ?thesis unfolding write_image_def by (simp add: gdt gws rb lb)
qed

lemma final_totals:
  assumes wf: "well_formed P" and ser: "serializable P"
    and ok: "groups_ok P (blocks_final P) (dirs_final P) {0..<11} gs"
  shows "0 \<le> total_free_blocks gs" "total_free_blocks gs < 4294967296"
    "0 \<le> total_free_inodes gs" "total_free_inodes gs < 4294967296"
proof -
  from ok have len: "length gs = GROUP_COUNT P" by (simp add: groups_ok_def)
  from ser have big: "GROUP_COUNT P * BLOCKS_PER_GROUP P + 5 < 4294967296"
    "INODE_COUNT P < 4294967296"
    by (simp_all add: serializable_def)
  have "0 \<le> free_blocks_count x \<and> free_blocks_count x \<le> int (BLOCKS_PER_GROUP P)"
    and "0 \<le> free_inodes_count x \<and> free_inodes_count x \<le> int (INODES_PER_GROUP P)"
    if "x \<in> set gs" for x
  proof -
    from that obtain k where k: "k < length gs" "x = gs ! k" by (auto simp: in_set_conv_nth)
    note r = final_group_ranges [OF wf ser ok k(1)]
    show "0 \<le> free_blocks_count x \<and> free_blocks_count x \<le> int (BLOCKS_PER_GROUP P)"
      and "0 \<le> free_inodes_count x \<and> free_inodes_count x \<le> int (INODES_PER_GROUP P)"
      using r(5,6,7,8) unfolding k(2) by simp_all
  qed
  from sum_list_bounds [of gs free_blocks_count, OF this(1)]
    sum_list_bounds [of gs free_inodes_count, OF this(2)]
  have b: "0 \<le> total_free_blocks gs"
    "total_free_blocks gs \<le> int (GROUP_COUNT P) * int (BLOCKS_PER_GROUP P)"
    "0 \<le> total_free_inodes gs"
    "total_free_inodes gs \<le> int (GROUP_COUNT P) * int (INODES_PER_GROUP P)"
    unfolding total_free_blocks_def total_free_inodes_def len by simp_all
  show "0 \<le> total_free_blocks gs" "0 \<le> total_free_inodes gs" using b by simp_all
  have "int (GROUP_COUNT P) * int (BLOCKS_PER_GROUP P) < 4294967296"
    using big(1) by (simp flip: of_nat_mult)
  with b(2) show "total_free_blocks gs < 4294967296" by linarith
  have "int (GROUP_COUNT P) * int (INODES_PER_GROUP P) < 4294967296"
    using big(2) by (simp add: INODE_COUNT_def mult.commute flip: of_nat_mult)
  with b(4) show "total_free_inodes gs < 4294967296" by linarith
qed

lemma mkfs_total:
  assumes wf: "well_formed P" and ser: "serializable P"
    and t: "0 \<le> t1" "t1 < 4294967296" "0 \<le> t2" "t2 < 4294967296"
  shows "\<exists>L sb gdt gws rb lb.
           allocate P = Inr L \<and> sb_data P t1 t2 (groups L) = Inr sb
         \<and> gdt_block P (groups L) = Inr gdt
         \<and> map_err (group_writes P L) (groups L) = Inr gws
         \<and> root_block P = Inr rb \<and> lf_block P = Inr lb
         \<and> mkfs P t1 t2
            = Inr ([(1024, sb), (2 * BLOCK_SIZE P, gdt)] @ concat gws
                   @ [(root_data_block L * BLOCK_SIZE P, rb),
                      (lf_data_block L * BLOCK_SIZE P, lb)])"
proof -
  from allocate_total [OF wf] obtain L where
    L: "allocate P = Inr L"
    and ok: "groups_ok P (blocks_final P) (dirs_final P) {0..<11} (groups L)"
    and root: "root_data_block L = data_block_addr P (metadata_blocks P) 0"
    and lf: "lf_data_block L = data_block_addr P (blocks_after_root P) (lf_group_idx P)"
    by blast
  from ser have s: "INODE_COUNT P < 4294967296" "BLOCK_COUNT P < 4294967296"
    "GROUP_COUNT P + 2 \<le> BLOCK_COUNT P" "BLOCKS_PER_GROUP P \<le> 65535"
    "INODES_PER_GROUP P \<le> 65535" "GROUP_COUNT P * BLOCKS_PER_GROUP P + 5 < 4294967296"
    by (simp_all add: serializable_def)
  from wf have w: "11 \<le> INODE_COUNT P" "0 < INODES_PER_GROUP P" by (simp_all add: well_formed_def)
  have "BLOCKS_PER_GROUP P < 4294967296" "INODES_PER_GROUP P < 4294967296" using s(4,5) by simp_all
  from create_superblock_total [OF s(1,2,3) w(1) this t]
  have "\<exists>sb. create_superblock P t1 t2 = Inr sb \<and> length sb = 1024" .
  from sb_data_total [OF this final_totals [OF wf ser ok]] obtain sb where
    sb: "sb_data P t1 t2 (groups L) = Inr sb" by blast
  note grp = inode_group_bound [OF w(2,1)]
  have g0: "0 < GROUP_COUNT P" using grp [of 0] by simp
  have glf: "lf_group_idx P < GROUP_COUNT P"
    using grp [of 10] by (simp add: lf_group_idx_def lf_inode_index_def)
  have "root_data_block L < 4294967296" "lf_data_block L < 4294967296"
    using data_block_addr_le [OF g0, of "metadata_blocks P"]
      data_block_addr_le [OF glf, of "blocks_after_root P"] s(6)
    unfolding root lf by linarith+
  from write_image_total [OF wf ser ok this, of sb] obtain gdt gws rb lb where
    w: "write_image P L sb
            = Inr ([(1024, sb), (2 * BLOCK_SIZE P, gdt)] @ concat gws
                   @ [(root_data_block L * BLOCK_SIZE P, rb),
                      (lf_data_block L * BLOCK_SIZE P, lb)])"
      "gdt_block P (groups L) = Inr gdt"
      "map_err (group_writes P L) (groups L) = Inr gws"
      "root_block P = Inr rb" "lf_block P = Inr lb"
    by blast
  have "mkfs P t1 t2
            = Inr ([(1024, sb), (2 * BLOCK_SIZE P, gdt)] @ concat gws
                   @ [(root_data_block L * BLOCK_SIZE P, rb),
                      (lf_data_block L * BLOCK_SIZE P, lb)])"
    unfolding mkfs_def by (simp only: L sb w(1) then_do_Inr)
  with L sb w(2-) show ?thesis by blast
qed

section \<open>The superblock of a run\<close>

lemma final_free_counts:
  assumes "groups_ok P M D T gs"
  shows "total_free_blocks gs
           = (\<Sum>k = 0..<GROUP_COUNT P. int (BLOCKS_PER_GROUP P) - int (M k))"
    and "total_free_inodes gs
           = (\<Sum>k = 0..<GROUP_COUNT P. int (INODES_PER_GROUP P) - int (card (inodes_in P T k)))"
proof -
  from assms have len: "length gs = GROUP_COUNT P"
    and g: "\<And>k. k < length gs \<Longrightarrow> group_ok P M D T k (gs ! k)"
    by (simp_all add: groups_ok_def)
  have "total_free_blocks gs = (\<Sum>k = 0..<length gs. free_blocks_count (gs ! k))"
    unfolding total_free_blocks_def by (simp add: sum_list_sum_nth)
  also have "\<dots> = (\<Sum>k = 0..<length gs. int (BLOCKS_PER_GROUP P) - int (M k))"
    by (rule sum.cong) (use g in \<open>simp_all add: group_ok_def\<close>)
  finally show "total_free_blocks gs
           = (\<Sum>k = 0..<GROUP_COUNT P. int (BLOCKS_PER_GROUP P) - int (M k))"
    unfolding len .
  have "total_free_inodes gs = (\<Sum>k = 0..<length gs. free_inodes_count (gs ! k))"
    unfolding total_free_inodes_def by (simp add: sum_list_sum_nth)
  also have "\<dots> = (\<Sum>k = 0..<length gs.
                       int (INODES_PER_GROUP P) - int (card (inodes_in P T k)))"
    by (rule sum.cong) (use g in \<open>simp_all add: group_ok_def\<close>)
  finally show "total_free_inodes gs
           = (\<Sum>k = 0..<GROUP_COUNT P. int (INODES_PER_GROUP P) - int (card (inodes_in P T k)))"
    unfolding len .
qed

lemma inodes_in_default:
  "inodes_in default_params {0..<11} k = (if k = 0 then {0..<11} else {})"
  by (auto simp: inodes_in_def default_params_def)

lemma blocks_final_default:
  "blocks_final default_params k = (if k = 0 then 262 else 258)"
  by (simp add: blocks_final_def blocks_after_root_def after_data_block_def metadata_blocks_def
      inode_table_blocks_def lf_group_idx_def lf_inode_index_def default_params_def)

lemma default_free_totals:
  assumes "groups_ok default_params (blocks_final default_params) D {0..<11} gs"
  shows "total_free_blocks gs = 63468" "total_free_inodes gs = 16373"
proof -
  have gc: "GROUP_COUNT default_params = 8"
    by (simp add: GROUP_COUNT_def BLOCK_COUNT_def default_params_def)
  have p: "BLOCKS_PER_GROUP default_params = 8192" "INODES_PER_GROUP default_params = 2048"
    by (simp_all add: default_params_def)
  have u: "{0..<8::nat} = {0, 1, 2, 3, 4, 5, 6, 7}" by auto
  show "total_free_blocks gs = 63468"
    unfolding final_free_counts(1) [OF assms] gc p blocks_final_default u by simp
  show "total_free_inodes gs = 16373"
    unfolding final_free_counts(2) [OF assms] gc p inodes_in_default u by simp
qed

text \<open>
  C6: the superblock that a completed run writes at byte offset 1024 is 1024 bytes
  long and holds the magic 0xEF53 at offset 56, the state 1 at offset 58, the error
  policy 1 at offset 60, the revision level 0 at offset 76, the first data block 1 (at
  offset 20) and the logarithm of the block size 0 (at offset 24); its free-block
  field at offset 12 and its free-inode field at offset 16 are the sums of the groups'
  counters after all allocation passes, not the values that \<open>create_superblock\<close> put
  there first.
\<close>

theorem superblock_fields:
  assumes "mkfs P t1 t2 = Inr ws"
  shows "\<exists>L sb rest. allocate P = Inr L \<and> ws = (1024, sb) # rest \<and> length sb = 1024
           \<and> u16_at sb 56 = 0xEF53 \<and> u16_at sb 58 = 1 \<and> u16_at sb 60 = 1
           \<and> u32_at sb 76 = 0 \<and> u32_at sb 20 = 1 \<and> u32_at sb 24 = 0
           \<and> int (u32_at sb 12) = total_free_blocks (groups L)
           \<and> int (u32_at sb 16) = total_free_inodes (groups L)"
proof -
  from assms obtain L sb where
    L: "allocate P = Inr L" and sb: "sb_data P t1 t2 (groups L) = Inr sb"
    and w: "write_image P L sb = Inr ws"
    unfolding mkfs_def then_do_eq_Inr by blast
  from w obtain rest where rest: "ws = (1024, sb) # rest"
    unfolding write_image_def then_do_eq_Inr by auto
  from L rest sb_data_fields(1,4,5,6,7,10,11,12,13) [OF sb] show ?thesis by blast
qed

theorem superblock_fields_witness:
  "\<exists>ws L sb rest. mkfs default_params 1700000000 1700000001 = Inr ws
     \<and> allocate default_params = Inr L \<and> ws = (1024, sb) # rest \<and> length sb = 1024
     \<and> u16_at sb 56 = 0xEF53 \<and> u16_at sb 58 = 1 \<and> u16_at sb 60 = 1
     \<and> u32_at sb 76 = 0 \<and> u32_at sb 20 = 1 \<and> u32_at sb 24 = 0
     \<and> u32_at sb 12 = 63468 \<and> u32_at sb 16 = 16373"
proof -
  from mkfs_total [OF well_formed_default serializable_default, of 1700000000 1700000001]
  obtain ws where ws: "mkfs default_params 1700000000 1700000001 = Inr ws" by auto
  from superblock_fields [OF ws] obtain L sb rest where
    r: "allocate default_params = Inr L" "ws = (1024, sb) # rest" "length sb = 1024"
      "u16_at sb 56 = 0xEF53" "u16_at sb 58 = 1" "u16_at sb 60 = 1"
      "u32_at sb 76 = 0" "u32_at sb 20 = 1" "u32_at sb 24 = 0"
      "int (u32_at sb 12) = total_free_blocks (groups L)"
      "int (u32_at sb 16) = total_free_inodes (groups L)"
    by blast
  from allocate_total [OF well_formed_default] r(1) have
    "groups_ok default_params (blocks_final default_params) (dirs_final default_params)
       {0..<11} (groups L)"
    by auto
  from default_free_totals [OF this] r(10,11)
  have "u32_at sb 12 = 63468" "u32_at sb 16 = 16373" by simp_all
  with ws r show ?thesis by blast
qed

section \<open>Two runs\<close>

lemma pack_field_length: "pack_field f = Inr b \<Longrightarrow> length b = field_size f"
  by (cases f) (auto simp: le_bytes_def split: if_splits)

lemma pack_length:
  "pack fs = Inr bs \<Longrightarrow> length bs = sum_list (map field_size fs)"
proof (induction fs arbitrary: bs)
  case Nil
  then show ?case by (simp add: pack.simps)
next
  case (Cons f fs)
  from Cons.prems obtain b rest where
    b: "pack_field f = Inr b" and rest: "pack fs = Inr rest" and bs: "bs = b @ rest"
    unfolding pack.simps then_do_eq_Inr by auto
  show ?case
    unfolding bs using pack_field_length [OF b] Cons.IH [OF rest] by simp
qed

lemma pack_append:
  "pack (fs @ gs) = then_do (pack fs) (\<lambda>a. then_do (pack gs) (\<lambda>b. Inr (a @ b)))"
proof (induction fs)
  case Nil
  show ?case by (cases "pack gs") (simp_all add: pack.simps)
next
  case (Cons f fs)
  show ?case
    unfolding append_Cons pack.simps Cons.IH
    by (cases "pack_field f"; cases "pack fs"; cases "pack gs") simp_all
qed

lemma agree_outside_pack_into:
  assumes "agree_outside X a b"
    and "pack_into fs off a = Inr a'" and "pack_into fs off b = Inr b'"
  shows "agree_outside X a' b'"
proof -
  from assms(2) obtain bs where bs: "pack fs = Inr bs" "off + length bs \<le> length a"
    "a' = patch a off bs"
    unfolding pack_into_eq_Inr by blast
  from assms(3) bs(1) have b': "b' = patch b off bs" and fit: "off + length bs \<le> length b"
    by (auto simp: pack_into_eq_Inr)
  from assms(1) have len: "length a = length b"
    and eq: "\<And>j. j < length a \<Longrightarrow> j \<notin> X \<Longrightarrow> a ! j = b ! j"
    by (simp_all add: agree_outside_def)
  have "a' ! j = b' ! j" if "j < length a" "j \<notin> X" for j
    unfolding bs(3) b' using that bs(2) fit len eq [OF that]
    by (simp add: patch_nth)
  then show ?thesis
    unfolding agree_outside_def bs(3) b' using bs(2) fit len by (simp add: patch_length)
qed

lemma header_agree:
  assumes "pack_into (A @ [I t1, I t2] @ Z) 0 (replicate n 0) = Inr h"
    and "pack_into (A @ [I s1, I s2] @ Z) 0 (replicate n 0) = Inr h'"
    and "sum_list (map field_size A) = k"
  shows "agree_outside {k..<k + 8} h h'"
proof -
  from assms(1) obtain a T z where a: "pack A = Inr a" and T: "pack [I t1, I t2] = Inr T"
    and z: "pack Z = Inr z" and h: "h = patch (replicate n 0) 0 (a @ T @ z)"
    and fit: "length (a @ T @ z) \<le> n"
    unfolding pack_into_eq_Inr pack_append then_do_eq_Inr by auto
  from assms(2) a z obtain T' where T': "pack [I s1, I s2] = Inr T'"
    and h': "h' = patch (replicate n 0) 0 (a @ T' @ z)"
    unfolding pack_into_eq_Inr pack_append then_do_eq_Inr by auto
  have la: "length a = k" using pack_length [OF a] assms(3) by simp
  have lT: "length T = 8" "length T' = 8" using pack_length [OF T] pack_length [OF T'] by simp_all
  have "(a @ T @ z) ! j = (a @ T' @ z) ! j" if "j \<notin> {k..<k + 8}" for j
  proof (cases "j < k")
    case True
    then show ?thesis by (simp add: nth_append la)
  next
    case False
    with that have "k + 8 \<le> j" by simp
    then have "\<not> j < k" "\<not> j - k < 8" by linarith+
    then show ?thesis by (simp add: nth_append la lT)
  qed
  then have "h ! j = h' ! j" if "j < n" "j \<notin> {k..<k + 8}" for j
    unfolding h h' using that fit lT by (simp add: patch_nth)
  then show ?thesis
    unfolding agree_outside_def using fit lT by (simp add: h h' patch_length)
qed

lemma sb_data_agree:
  assumes "sb_data P t1 t2 gs = Inr sb" and "sb_data P s1 s2 gs = Inr sb'"
  shows "agree_outside {44..<52} sb sb'"
proof -
  let ?A = "[I (int (INODE_COUNT P)), I (int (BLOCK_COUNT P)), I 0,
         I (int (BLOCK_COUNT P) - 1 - int (GROUP_COUNT P) * 1 - 1),
         I (int (INODE_COUNT P) - 11),
         I 1, I 0, I 0,
         I (int (BLOCKS_PER_GROUP P)), I (int (BLOCKS_PER_GROUP P)),
         I (int (INODES_PER_GROUP P))]"
  let ?Z = "[H 0, H 20]"
  from assms(1) obtain a1 a2 a3 a4 a5 a6 where
    a: "pack_into (?A @ [I t1, I t2] @ ?Z) 0 (replicate 1024 0) = Inr a1"
      "pack_into [H 0xEF53] 56 a1 = Inr a2"
      "pack_into [H 1] 58 a2 = Inr a3"
      "pack_into [H 1] 60 a3 = Inr a4"
      "pack_into [I 0] 76 a4 = Inr a5"
      "pack_into [I (total_free_blocks gs)] 12 a5 = Inr a6"
      "pack_into [I (total_free_inodes gs)] 16 a6 = Inr sb"
    unfolding sb_data_def create_superblock_def then_do_eq_Inr append_Cons append_Nil by blast
  from assms(2) obtain b1 b2 b3 b4 b5 b6 where
    b: "pack_into (?A @ [I s1, I s2] @ ?Z) 0 (replicate 1024 0) = Inr b1"
      "pack_into [H 0xEF53] 56 b1 = Inr b2"
      "pack_into [H 1] 58 b2 = Inr b3"
      "pack_into [H 1] 60 b3 = Inr b4"
      "pack_into [I 0] 76 b4 = Inr b5"
      "pack_into [I (total_free_blocks gs)] 12 b5 = Inr b6"
      "pack_into [I (total_free_inodes gs)] 16 b6 = Inr sb'"
    unfolding sb_data_def create_superblock_def then_do_eq_Inr append_Cons append_Nil by blast
  have "sum_list (map field_size ?A) = 44" by simp
  from header_agree [OF a(1) b(1) this] have "agree_outside {44..<52} a1 b1" by simp
  from agree_outside_pack_into [OF this a(2) b(2)] have "agree_outside {44..<52} a2 b2" .
  from agree_outside_pack_into [OF this a(3) b(3)] have "agree_outside {44..<52} a3 b3" .
  from agree_outside_pack_into [OF this a(4) b(4)] have "agree_outside {44..<52} a4 b4" .
  from agree_outside_pack_into [OF this a(5) b(5)] have "agree_outside {44..<52} a5 b5" .
  from agree_outside_pack_into [OF this a(6) b(6)] have "agree_outside {44..<52} a6 b6" .
  from agree_outside_pack_into [OF this a(7) b(7)] show ?thesis .
qed

lemma foldl_write_at_cong:
  "f pos = f' pos \<Longrightarrow> foldl write_at f ws pos = foldl write_at f' ws pos"
proof (induction ws arbitrary: f f')
  case Nil
  then show ?case by simp
next
  case (Cons w ws)
  have "write_at f w pos = write_at f' w pos" using Cons.prems by (simp add: write_at_def)
  then have "foldl write_at (write_at f w) ws pos = foldl write_at (write_at f' w) ws pos"
    by (rule Cons.IH)
  then show ?case by simp
qed

text \<open>
  C10: two runs that differ only in the readings of the clock write images of the same
  size that hold the same byte at every offset outside 1068 to 1075, the fields
  \<open>s_mtime\<close> and \<open>s_wtime\<close> of the superblock.  The image is a function of the
  constants and of the two readings, and nothing else.
\<close>

theorem image_determinism:
  assumes "mkfs P t1 t2 = Inr ws" and "mkfs P s1 s2 = Inr ws'"
  shows "image_size P ws = image_size P ws'
       \<and> (\<forall>pos. pos \<notin> {1068..1075} \<longrightarrow> image_byte ws pos = image_byte ws' pos)"
proof -
  from assms(1) obtain L sb where
    L: "allocate P = Inr L" and sb: "sb_data P t1 t2 (groups L) = Inr sb"
    and w: "write_image P L sb = Inr ws"
    unfolding mkfs_def then_do_eq_Inr by blast
  from assms(2) L obtain sb' where
    sb': "sb_data P s1 s2 (groups L) = Inr sb'" and w': "write_image P L sb' = Inr ws'"
    unfolding mkfs_def then_do_eq_Inr by auto
  from w obtain rest where ws: "ws = (1024, sb) # rest"
    and rest: "write_image P L sb' = Inr ((1024, sb') # rest)"
    unfolding write_image_def then_do_eq_Inr by auto
  with w' have ws': "ws' = (1024, sb') # rest" by simp
  from sb_data_agree [OF sb sb'] have len: "length sb = length sb'"
    and eq: "\<And>j. j < length sb \<Longrightarrow> j \<notin> {44..<52} \<Longrightarrow> sb ! j = sb' ! j"
    by (simp_all add: agree_outside_def)
  have "image_size P ws = image_size P ws'"
    unfolding image_size_def ws ws' by (simp add: len)
  moreover have "image_byte ws pos = image_byte ws' pos" if "pos \<notin> {1068..1075}" for pos
  proof -
    have "write_at (\<lambda>pos. 0) (1024, sb) pos = write_at (\<lambda>pos. 0) (1024, sb') pos"
    proof (cases "1024 \<le> pos \<and> pos < 1024 + length sb")
      case True
      then have "pos - 1024 < length sb" by linarith
      moreover have "pos - 1024 \<notin> {44..<52}" using that True by auto
      ultimately show ?thesis using eq True len by (simp add: write_at_def)
    next
      case False
      then have "\<not> (1024 \<le> pos \<and> pos < 1024 + length sb')" using len by simp
      with False show ?thesis by (auto simp: write_at_def)
    qed
    then show ?thesis
      unfolding image_byte_def ws ws' foldl_Cons by (rule foldl_write_at_cong)
  qed
  ultimately show ?thesis by blast
qed

theorem image_determinism_witness:
  "\<exists>ws ws'. mkfs default_params 1700000000 1700000001 = Inr ws
     \<and> mkfs default_params 1800000000 1800000002 = Inr ws'
     \<and> image_size default_params ws = image_size default_params ws'
     \<and> image_byte ws 1067 = image_byte ws' 1067 \<and> image_byte ws 1076 = image_byte ws' 1076
     \<and> image_byte ws 0 = image_byte ws' 0"
proof -
  from mkfs_total [OF well_formed_default serializable_default, of 1700000000 1700000001]
  obtain ws where ws: "mkfs default_params 1700000000 1700000001 = Inr ws" by auto
  from mkfs_total [OF well_formed_default serializable_default, of 1800000000 1800000002]
  obtain ws' where ws': "mkfs default_params 1800000000 1800000002 = Inr ws'" by auto
  from image_determinism [OF ws ws'] ws ws' show ?thesis by auto
qed

end
